theory Spec2Isabelle
  imports Complex_Main "HOL-Library.Sublist" "HOL-Library.Log_Nat"
begin

section \<open>Data model\<close>

text \<open>
  A transcript entry is the dictionary the transcript library returns for one caption
  segment. The program reads two keys of it, \<^verbatim>\<open>entry["start"]\<close> and
  \<^verbatim>\<open>entry["text"]\<close>. Times are Python floats in the source. Here a time is the
  rational number that the float denotes. The subtractions of the context before a match
  round their results as the floats do (section Float subtraction); the sums and the
  difference of the context after a match are computed exactly.
\<close>

record segment =
  start :: rat
  text_of :: string

text \<open>
  \<^verbatim>\<open>str.lower()\<close>, on the ASCII letters. Characters outside ASCII are left as they
  are.
\<close>

definition lower_char :: "char \<Rightarrow> char" where
  "lower_char c =
     (if 65 \<le> (of_char c :: nat) \<and> (of_char c :: nat) \<le> 90
      then char_of ((of_char c :: nat) + 32) else c)"

definition lower :: "string \<Rightarrow> string" where
  "lower s = map lower_char s"

text \<open>
  The operator \<^verbatim>\<open>q in s\<close> on strings: \<open>q\<close> occurs in \<open>s\<close> as a contiguous
  block, starting at some position of \<open>s\<close>.
\<close>

fun py_in :: "string \<Rightarrow> string \<Rightarrow> bool" where
  "py_in q [] = (q = [])"
| "py_in q (c # cs) = (prefix q (c # cs) \<or> py_in q cs)"

section \<open>Searching the transcript\<close>

text \<open>
  First loop of \<^verbatim>\<open>get_query_usages_with_context\<close>: enumerate the entries and
  collect \<open>(i, entry)\<close> for every entry whose lowercased text contains the query.
  The counter \<open>i\<close> is the position \<^verbatim>\<open>enumerate\<close> has reached.
\<close>

fun primary_pass :: "string \<Rightarrow> nat \<Rightarrow> segment list \<Rightarrow> (nat \<times> segment) list" where
  "primary_pass query i [] = []"
| "primary_pass query i (entry # rest) =
     (if py_in query (lower (text_of entry))
      then (i, entry) # primary_pass query (Suc i) rest
      else primary_pass query (Suc i) rest)"

text \<open>
  Second loop, over \<^verbatim>\<open>range(len(self.transcript_data) - 1)\<close>: a window of two
  consecutive segments, joined with one space. A window that contains the query appends
  both of its segments.
\<close>

definition window_matches :: "string \<Rightarrow> segment list \<Rightarrow> nat \<Rightarrow> (nat \<times> segment) list" where
  "window_matches query tdata i =
     (let current_segment = lower (text_of (tdata ! i));
          next_seg = lower (text_of (tdata ! (i + 1)));
          combined_text = current_segment @ '' '' @ next_seg
      in if py_in query combined_text
         then [(i, tdata ! i), (i + 1, tdata ! (i + 1))]
         else [])"

definition fallback_pass :: "string \<Rightarrow> segment list \<Rightarrow> (nat \<times> segment) list" where
  "fallback_pass query tdata =
     concat (map (window_matches query tdata) [0 ..< length tdata - 1])"

text \<open>
  The match list the record-building loop receives: the query is lowercased, the first
  loop runs, and the second loop runs only if \<^verbatim>\<open>not matches\<close>.
\<close>

definition find_matches :: "segment list \<Rightarrow> string \<Rightarrow> (nat \<times> segment) list" where
  "find_matches tdata query =
     (let q = lower query;
          matches = primary_pass q 0 tdata
      in if matches = [] then fallback_pass q tdata else matches)"

section \<open>Float subtraction\<close>

text \<open>
  Python floats are IEEE 754 binary64 numbers, and an arithmetic operation returns the
  double nearest to the exact result, ties going to the even significand. The exact
  result is a rational, so rounding is a function on rationals. For \<open>x > 0\<close>,
  \<open>floor_log2 x\<close> is the exponent \<open>e\<close> with \<open>2^e \<le> x < 2^(e + 1)\<close>, computed from the
  bit lengths of numerator and denominator. The doubles around \<open>x\<close> are the multiples of
  \<open>quantum x\<close>: \<open>2^(e - 52)\<close>, and \<open>2^(-1074)\<close> in the subnormal range. Results of
  magnitude \<open>2^1024\<close> and more, where Python yields \<^verbatim>\<open>inf\<close>, are outside the model.
\<close>

definition floor_log2 :: "rat \<Rightarrow> int" where
  "floor_log2 x =
     (let p = fst (quotient_of x);
          q = snd (quotient_of x);
          d = bitlen p - bitlen q
      in if 2 powi d \<le> x then d else d - 1)"

definition round_half_even :: "rat \<Rightarrow> int" where
  "round_half_even y =
     (let f = \<lfloor>y\<rfloor>;
          d = y - of_int f
      in if d < 1 / 2 then f
         else if 1 / 2 < d then f + 1
         else if even f then f else f + 1)"

definition quantum :: "rat \<Rightarrow> rat" where
  "quantum x = 2 powi (max (floor_log2 \<bar>x\<bar> - 52) (- 1074))"

definition round_double :: "rat \<Rightarrow> rat" where
  "round_double x =
     (if x = 0 then 0 else quantum x * of_int (round_half_even (x / quantum x)))"

text \<open>The rationals that are doubles: rounding leaves them as they are.\<close>

definition is_double :: "rat \<Rightarrow> bool" where
  "is_double x \<longleftrightarrow> round_double x = x"

text \<open>
  \<^verbatim>\<open>a - b\<close> on floats. Each operand is converted to a float first, which changes an
  \<^verbatim>\<open>int\<close> too large for a double and leaves a value that is a double as it is.
\<close>

definition float_sub :: "rat \<Rightarrow> rat \<Rightarrow> rat" where
  "float_sub a b = round_double (round_double a - round_double b)"

section \<open>Building the match records\<close>

record context_info =
  entries :: "segment list"
  available_seconds :: rat

record match_record =
  match :: segment
  is_cross_segment :: bool
  next_segment :: "segment option"
  context_before :: context_info
  context_after :: context_info

text \<open>
  The inner loop over \<^verbatim>\<open>matches\<close> that looks for the index \<^verbatim>\<open>match_index + 1\<close>
  and breaks at the first hit. It yields \<^verbatim>\<open>is_cross_segment\<close> and
  \<^verbatim>\<open>next_segment\<close>.
\<close>

fun adjacent_loop :: "nat \<Rightarrow> (nat \<times> segment) list \<Rightarrow> bool \<times> segment option" where
  "adjacent_loop match_index [] = (False, None)"
| "adjacent_loop match_index ((other_index, other_entry) # rest) =
     (if other_index = match_index + 1 then (True, Some other_entry)
      else adjacent_loop match_index rest)"

definition collect_before :: "segment list \<Rightarrow> rat \<Rightarrow> rat \<Rightarrow> context_info" where
  "collect_before tdata match_time context_window =
     (let before_time_limit = max 0 (float_sub match_time context_window);
          available_before = float_sub match_time before_time_limit
      in \<lparr>entries = filter (\<lambda>entry. before_time_limit \<le> start entry \<and> start entry < match_time)
                         tdata,
          available_seconds = available_before\<rparr>)"

text \<open>
  \<^verbatim>\<open>is_cross_segment and next_segment\<close> tests the flag and that the dictionary is
  not \<^verbatim>\<open>None\<close> (an entry always has keys, so it is never an empty dictionary).
\<close>

definition collect_after ::
  "segment list \<Rightarrow> rat \<Rightarrow> rat \<Rightarrow> bool \<Rightarrow> segment option \<Rightarrow> context_info" where
  "collect_after tdata match_time context_window is_cross next_seg =
     (let after_time_limit0 = match_time + context_window;
          after_time_limit =
            (case next_seg of
               Some n \<Rightarrow> if is_cross then max after_time_limit0 (start n + context_window)
                         else after_time_limit0
             | None \<Rightarrow> after_time_limit0);
          last_timestamp = (if tdata \<noteq> [] then start (last tdata) else 0);
          available_after = min after_time_limit last_timestamp - match_time
      in \<lparr>entries =
            filter (\<lambda>entry. match_time < start entry \<and> start entry \<le> after_time_limit
                      \<and> \<not> (case next_seg of
                              Some n \<Rightarrow> is_cross \<and> start entry = start n
                            | None \<Rightarrow> False))
              tdata,
          available_seconds = available_after\<rparr>)"

text \<open>
  The loop \<^verbatim>\<open>for match_index, match_entry in matches\<close>. Its state is the set
  \<^verbatim>\<open>processed_indices\<close> and the list \<^verbatim>\<open>results\<close>; \<open>matches\<close> is the whole match
  list (the inner loop scans it again), \<open>todo\<close> is what the outer loop has not visited.
\<close>

fun records_loop ::
  "segment list \<Rightarrow> (nat \<times> segment) list \<Rightarrow> rat \<Rightarrow> (nat \<times> segment) list
     \<Rightarrow> nat set \<Rightarrow> match_record list \<Rightarrow> match_record list" where
  "records_loop tdata matches context_window [] processed_indices results = results"
| "records_loop tdata matches context_window ((match_index, match_entry) # todo)
       processed_indices results =
     (if match_index \<in> processed_indices
      then records_loop tdata matches context_window todo processed_indices results
      else
        let processed1 = insert match_index processed_indices;
            match_time = start match_entry;
            found = adjacent_loop match_index matches;
            is_cross = fst found;
            next_seg = snd found;
            processed2 = (if is_cross then insert (match_index + 1) processed1 else processed1);
            result = \<lparr>match = match_entry,
                      is_cross_segment = is_cross,
                      next_segment = (if is_cross then next_seg else None),
                      context_before = collect_before tdata match_time context_window,
                      context_after =
                        collect_after tdata match_time context_window is_cross next_seg\<rparr>
        in records_loop tdata matches context_window todo processed2
             (results @ [result]))"

text \<open>
  Two functions for the proofs about the loop. \<open>emitted\<close> is the same loop keeping only
  the pairs for which a record is appended; \<open>record_of\<close> is the record the loop body
  builds for such a pair. Lemma \<open>records_loop_emitted\<close> below shows that the loop's
  result is \<open>record_of\<close> mapped over \<open>emitted\<close>.
\<close>

fun emitted :: "(nat \<times> segment) list \<Rightarrow> (nat \<times> segment) list \<Rightarrow> nat set \<Rightarrow> (nat \<times> segment) list" where
  "emitted matches [] processed_indices = []"
| "emitted matches ((match_index, match_entry) # todo) processed_indices =
     (if match_index \<in> processed_indices then emitted matches todo processed_indices
      else (match_index, match_entry)
             # emitted matches todo
                 (if fst (adjacent_loop match_index matches)
                  then insert (match_index + 1) (insert match_index processed_indices)
                  else insert match_index processed_indices))"

definition record_of :: "segment list \<Rightarrow> (nat \<times> segment) list \<Rightarrow> rat \<Rightarrow> nat \<times> segment \<Rightarrow> match_record" where
  "record_of tdata matches context_window p =
     (let found = adjacent_loop (fst p) matches
      in \<lparr>match = snd p,
          is_cross_segment = fst found,
          next_segment = (if fst found then snd found else None),
          context_before = collect_before tdata (start (snd p)) context_window,
          context_after = collect_after tdata (start (snd p)) context_window (fst found) (snd found)\<rparr>)"

section \<open>Timestamps and numbers as text\<close>

definition digit_char :: "nat \<Rightarrow> char" where
  "digit_char d = char_of (48 + d)"

fun digits :: "nat \<Rightarrow> string" where
  "digits n = (if n < 10 then [digit_char n] else digits (n div 10) @ [digit_char (n mod 10)])"

declare digits.simps [simp del]

text \<open>\<^verbatim>\<open>str(n)\<close> of an integer.\<close>

definition str_int :: "int \<Rightarrow> string" where
  "str_int n = (if n < 0 then ''-'' @ digits (nat (- n)) else digits (nat n))"

text \<open>
  The format specification \<^verbatim>\<open>02d\<close>: at least two characters, filled with zeros
  on the left, the sign (if any) in front of the zeros.
\<close>

definition fmt_02d :: "int \<Rightarrow> string" where
  "fmt_02d n =
     (if n < 0
      then ''-'' @ replicate (1 - length (digits (nat (- n)))) CHR ''0'' @ digits (nat (- n))
      else replicate (2 - length (digits (nat n))) CHR ''0'' @ digits (nat n))"

text \<open>
  Python's \<^verbatim>\<open>//\<close> and \<^verbatim>\<open>%\<close> (floor division and its remainder) and \<^verbatim>\<open>int(x)\<close>,
  which truncates towards zero.
\<close>

definition py_floordiv :: "rat \<Rightarrow> rat \<Rightarrow> rat" where
  "py_floordiv x y = of_int \<lfloor>x / y\<rfloor>"

definition py_mod :: "rat \<Rightarrow> rat \<Rightarrow> rat" where
  "py_mod x y = x - y * of_int \<lfloor>x / y\<rfloor>"

definition py_int :: "rat \<Rightarrow> int" where
  "py_int x = (if 0 \<le> x then \<lfloor>x\<rfloor> else \<lceil>x\<rceil>)"

definition format_timestamp :: "rat \<Rightarrow> string" where
  "format_timestamp seconds =
     (let hours = py_int (py_floordiv seconds 3600);
          minutes = py_int (py_floordiv (py_mod seconds 3600) 60);
          secs = py_int (py_mod seconds 60)
      in if hours > 0
         then fmt_02d hours @ '':'' @ fmt_02d minutes @ '':'' @ fmt_02d secs
         else fmt_02d minutes @ '':'' @ fmt_02d secs)"

definition nl :: string where
  "nl = [CHR 0x0A]"

definition apostrophe :: string where
  "apostrophe = [CHR 0x27]"

text \<open>The line \<^verbatim>\<open>f"[{timestamp}] {entry['text']}\n\n"\<close> of one entry.\<close>

definition format_entry :: "segment \<Rightarrow> string" where
  "format_entry entry = ''['' @ format_timestamp (start entry) @ ''] '' @ text_of entry @ nl @ nl"

section \<open>Exceptions and the outside world\<close>

text \<open>
  An exception is a value; each carries the text \<^verbatim>\<open>str(e)\<close> is built from.
  \<open>LibraryError\<close> stands for whatever the HTTP and transcript libraries raise.
\<close>

datatype py_error =
    KeyError string
  | IndexError string
  | TypeError string
  | ValueError string
  | LibraryError string

fun str_error :: "py_error \<Rightarrow> string" where
  "str_error (KeyError k) = apostrophe @ k @ apostrophe"
| "str_error (IndexError m) = m"
| "str_error (TypeError m) = m"
| "str_error (ValueError m) = m"
| "str_error (LibraryError m) = m"

definition try_except :: "(py_error + 'a) \<Rightarrow> (py_error \<Rightarrow> py_error + 'a) \<Rightarrow> py_error + 'a" where
  "try_except body handler = (case body of Inl e \<Rightarrow> handler e | Inr v \<Rightarrow> Inr v)"

text \<open>
  The library calls of the program are parameters of the model: what \<^verbatim>\<open>urlparse\<close>
  and \<^verbatim>\<open>parse_qs\<close> return for a string, what \<^verbatim>\<open>requests.get\<close> answers for a URL,
  and what \<^verbatim>\<open>YouTubeTranscriptApi.list_transcripts\<close> answers for a video identifier.
\<close>

record parsed_url =
  url_path :: string
  url_query :: string

record response =
  status_code :: int
  json_title :: "py_error + string"

datatype transcript = Transcript (language: string) (fetch: "py_error + segment list")

record transcript_list =
  transcripts :: "transcript list"
  find_transcript :: "string list \<Rightarrow> py_error + transcript"

record env =
  urlparse :: "string \<Rightarrow> py_error + parsed_url"
  parse_qs :: "string \<Rightarrow> (string \<rightharpoonup> string list)"
  requests_get :: "string \<Rightarrow> py_error + response"
  list_transcripts :: "string \<Rightarrow> py_error + transcript_list"

text \<open>\<^verbatim>\<open>s.split(sep)\<close> for a one-character separator; the result is never empty.\<close>

fun split_on :: "char \<Rightarrow> string \<Rightarrow> string list" where
  "split_on sep [] = [[]]"
| "split_on sep (c # cs) =
     (if c = sep then [] # split_on sep cs
      else (c # hd (split_on sep cs)) # tl (split_on sep cs))"

definition parse_video_id :: "env \<Rightarrow> string \<Rightarrow> py_error + string" where
  "parse_video_id world url =
     (case urlparse world url of
        Inl e \<Rightarrow> Inl e
      | Inr parsed \<Rightarrow>
          if py_in ''live'' (url_path parsed)
          then Inr (last (split_on CHR ''/'' (url_path parsed)))
          else if url_query parsed \<noteq> []
          then (case parse_qs world (url_query parsed) ''v'' of
                  None \<Rightarrow> Inl (KeyError ''v'')
                | Some [] \<Rightarrow> Inl (IndexError ''list index out of range'')
                | Some (v # _) \<Rightarrow> Inr v)
          else Inr url)"

definition get_video_title :: "env \<Rightarrow> string \<Rightarrow> py_error + string" where
  "get_video_title world url =
     (case parse_video_id world url of
        Inl e \<Rightarrow> Inl e
      | Inr vid_id \<Rightarrow>
          let vid_url = ''https://www.youtube.com/watch?v='' @ vid_id;
              request_url = ''https://www.youtube.com/oembed'' @ ''?format=json&url='' @ vid_url
          in try_except
               (case requests_get world request_url of
                  Inl e \<Rightarrow> Inl e
                | Inr resp \<Rightarrow>
                    if status_code resp = 200 then json_title resp
                    else Inr (''Video '' @ vid_id))
               (\<lambda>_. Inr (''Video '' @ vid_id)))"

section \<open>The transcript object\<close>

record transcript_dict =
  video_id :: string
  video_url :: string
  transcript_data :: "segment list"
  has_transcript :: bool

text \<open>
  The three calls in the constructor's \<^verbatim>\<open>try\<close> block: list the transcripts, find
  the English one, fetch it.
\<close>

definition fetch_english :: "env \<Rightarrow> string \<Rightarrow> py_error + segment list" where
  "fetch_english world vid =
     (case list_transcripts world vid of
        Inl e \<Rightarrow> Inl e
      | Inr tlist \<Rightarrow>
          (case find_transcript tlist [''en''] of
             Inl e \<Rightarrow> Inl e
           | Inr t \<Rightarrow> fetch t))"

definition TranscriptDict :: "env \<Rightarrow> string \<Rightarrow> py_error + transcript_dict" where
  "TranscriptDict world url =
     (case parse_video_id world url of
        Inl e \<Rightarrow> Inl e
      | Inr vid \<Rightarrow>
          (case fetch_english world vid of
             Inl _ \<Rightarrow> Inr \<lparr>video_id = vid, video_url = url, transcript_data = [],
                           has_transcript = False\<rparr>
           | Inr fetched \<Rightarrow> Inr \<lparr>video_id = vid, video_url = url, transcript_data = fetched,
                                 has_transcript = True\<rparr>))"

fun usages_loop :: "string \<Rightarrow> segment list \<Rightarrow> (rat \<rightharpoonup> string) \<Rightarrow> (rat \<rightharpoonup> string)" where
  "usages_loop query [] results = results"
| "usages_loop query (entry # rest) results =
     usages_loop query rest
       (if py_in query (lower (text_of entry)) then results(start entry \<mapsto> text_of entry)
        else results)"

definition get_query_usages :: "transcript_dict \<Rightarrow> string \<Rightarrow> (rat \<rightharpoonup> string)" where
  "get_query_usages self query =
     (if \<not> has_transcript self then Map.empty
      else usages_loop (lower query) (transcript_data self) Map.empty)"

definition get_query_usages_with_context ::
  "transcript_dict \<Rightarrow> string \<Rightarrow> rat \<Rightarrow> match_record list" where
  "get_query_usages_with_context self query context_window =
     (if \<not> has_transcript self then []
      else let matches = find_matches (transcript_data self) query
           in records_loop (transcript_data self) matches context_window matches {} [])"

text \<open>
  The loop of \<^verbatim>\<open>fetch_transcript\<close>. \<^verbatim>\<open>end_time\<close> is \<^verbatim>\<open>Optional[int]\<close>: with
  \<^verbatim>\<open>None\<close> the test \<^verbatim>\<open>end_time == 0\<close> is false and the comparison
  \<^verbatim>\<open>entry["start"] <= end_time\<close> raises \<^verbatim>\<open>TypeError\<close>, for the first entry that
  reaches it.
\<close>

fun section_loop :: "segment list \<Rightarrow> rat \<Rightarrow> rat option \<Rightarrow> string \<Rightarrow> py_error + string" where
  "section_loop [] start_time end_time section = Inr section"
| "section_loop (entry # rest) start_time end_time section =
     (if start entry \<ge> start_time
      then (case end_time of
              None \<Rightarrow> Inl (TypeError (apostrophe @ ''<='' @ apostrophe
                        @ '' not supported between instances of '' @ apostrophe @ ''float''
                        @ apostrophe @ '' and '' @ apostrophe @ ''NoneType'' @ apostrophe))
            | Some e \<Rightarrow>
                if e = 0 \<or> start entry \<le> e
                then section_loop rest start_time end_time (section @ format_entry entry)
                else section_loop rest start_time end_time section)
      else section_loop rest start_time end_time section)"

definition fetch_transcript ::
  "env \<Rightarrow> transcript_dict \<Rightarrow> rat \<Rightarrow> rat option \<Rightarrow> py_error + string" where
  "fetch_transcript world self start_time end_time =
     (if \<not> has_transcript self
      then (case get_video_title world (video_url self) of
              Inl e \<Rightarrow> Inl e
            | Inr title \<Rightarrow>
                Inr (''No transcript available for video: '' @ title @ '' (ID: ''
                       @ video_id self @ '')''))
      else section_loop (transcript_data self) start_time end_time [])"

text \<open>
  The slice operation in the words of the specification: the segments with
  \<open>start \<ge> start_time\<close> and (\<open>end_time = 0\<close> or \<open>start \<le> end_time\<close>), in order.
\<close>

definition slice_transcript :: "segment list \<Rightarrow> rat \<Rightarrow> rat \<Rightarrow> segment list" where
  "slice_transcript tdata start_time end_time =
     filter (\<lambda>entry. start entry \<ge> start_time \<and> (end_time = 0 \<or> start entry \<le> end_time)) tdata"

section \<open>The tools\<close>

definition generate_link :: "env \<Rightarrow> string \<Rightarrow> rat \<Rightarrow> py_error + string" where
  "generate_link world url timestamp =
     (case parse_video_id world url of
        Inl e \<Rightarrow> Inl e
      | Inr vid \<Rightarrow>
          let timestamp_seconds = py_int timestamp
          in Inr (''https://www.youtube.com/watch?v='' @ vid @ ''&t=''
                    @ str_int timestamp_seconds @ ''s''))"

text \<open>
  \<^verbatim>\<open>get_full_transcript\<close>: two nested \<^verbatim>\<open>try\<close> blocks. Both handlers call
  \<^verbatim>\<open>get_video_title\<close>, outside any \<^verbatim>\<open>try\<close> of their own.
\<close>

definition get_full_transcript :: "env \<Rightarrow> string \<Rightarrow> py_error + string" where
  "get_full_transcript world url =
     try_except
       (case parse_video_id world url of
          Inl e \<Rightarrow> Inl e
        | Inr vid \<Rightarrow>
            try_except
              (case fetch_english world vid of
                 Inl e \<Rightarrow> Inl e
               | Inr fetched \<Rightarrow> Inr (concat (map format_entry fetched)))
              (\<lambda>e. case get_video_title world url of
                      Inl e' \<Rightarrow> Inl e'
                    | Inr title \<Rightarrow> Inr (''No transcript available for video: '' @ title @ '')'')))
       (\<lambda>e. case get_video_title world url of
               Inl e' \<Rightarrow> Inl e'
             | Inr title \<Rightarrow>
                 Inr (''Error retrieving transcript: '' @ str_error e @ nl @ ''Video: '' @ title
                        @ '')''))"

text \<open>\<^verbatim>\<open>sep.join(xs)\<close>.\<close>

fun join :: "string \<Rightarrow> string list \<Rightarrow> string" where
  "join sep [] = []"
| "join sep [x] = x"
| "join sep (x # y # ys) = x @ sep @ join sep (y # ys)"

definition get_video_information :: "env \<Rightarrow> string \<Rightarrow> py_error + string" where
  "get_video_information world url =
     (case parse_video_id world url of
        Inl e \<Rightarrow> Inl e
      | Inr vid \<Rightarrow>
          (case get_video_title world url of
             Inl e \<Rightarrow> Inl e
           | Inr title \<Rightarrow>
               try_except
                 (case list_transcripts world vid of
                    Inl e \<Rightarrow> Inl e
                  | Inr tlist \<Rightarrow>
                      let available_languages = map language (transcripts tlist)
                      in Inr (''Title: '' @ title @ nl @ ''Video ID: '' @ vid @ nl
                                @ ''Available transcript languages: ''
                                @ join '', '' available_languages))
                 (\<lambda>_. Inr (''Title: '' @ title @ nl
                              @ ''No transcripts available for this video.''))))"

text \<open>The line \<^verbatim>\<open>f"[{timestamp}] {entry['text']}\n"\<close> of a context entry.\<close>

definition format_context_entry :: "segment \<Rightarrow> string" where
  "format_context_entry entry =
     ''['' @ format_timestamp (start entry) @ ''] '' @ text_of entry @ nl"

text \<open>
  The loop \<^verbatim>\<open>for i, result in enumerate(results)\<close> of \<^verbatim>\<open>search_transcript\<close>,
  with the text built so far.
\<close>

fun format_results ::
  "env \<Rightarrow> string \<Rightarrow> string \<Rightarrow> nat \<Rightarrow> match_record list \<Rightarrow> string \<Rightarrow> py_error + string" where
  "format_results world url title i [] formatted_results = Inr formatted_results"
| "format_results world url title i (result # rest) formatted_results =
     (let match_entry = match result;
          before_entries = entries (context_before result);
          after_entries = entries (context_after result);
          available_before = available_seconds (context_before result);
          available_after = available_seconds (context_after result);
          is_cross = is_cross_segment result;
          next_seg = next_segment result;
          f1 = formatted_results
                 @ (if i > 0 then nl @ replicate 50 CHR ''-'' @ nl @ nl else []);
          f2 = f1 @ ''=== CONTEXT BEFORE (AVAILABLE: '' @ str_int (py_int available_before)
                 @ ''s) ==='' @ nl;
          f3 = f2 @ (if before_entries \<noteq> [] then concat (map format_context_entry before_entries)
                     else ''No context available before this match (beginning of video)'' @ nl);
          f4 = f3 @ nl @ ''=== QUERY MATCH ==='' @ nl;
          timestamp = format_timestamp (start match_entry)
      in case generate_link world url (of_int (py_int (start match_entry))) of
           Inl e \<Rightarrow> Inl e
         | Inr formatted_link \<Rightarrow>
             let f5 = f4 @
                   (case next_seg of
                      Some n \<Rightarrow>
                        if is_cross
                        then ''['' @ timestamp @ ''] '' @ text_of match_entry @ nl
                               @ ''['' @ format_timestamp (start n) @ ''] '' @ text_of n @ nl
                               @ ''(Link: '' @ formatted_link @ '')'' @ nl
                        else ''['' @ timestamp @ ''] '' @ text_of match_entry @ '' (Link: ''
                               @ formatted_link @ '')'' @ nl
                    | None \<Rightarrow>
                        ''['' @ timestamp @ ''] '' @ text_of match_entry @ '' (Link: ''
                          @ formatted_link @ '')'' @ nl);
                 f6 = f5 @ nl @ ''=== CONTEXT AFTER (AVAILABLE: '' @ str_int (py_int available_after)
                        @ ''s) ==='' @ nl;
                 f7 = f6 @ (if after_entries \<noteq> [] then concat (map format_context_entry after_entries)
                            else ''No context available after this match (end of video)'' @ nl)
             in format_results world url title (Suc i) rest f7)"

text \<open>
  \<^verbatim>\<open>search_transcript\<close>: the title is fetched before the \<^verbatim>\<open>try\<close> block.
\<close>

definition search_transcript :: "env \<Rightarrow> string \<Rightarrow> string \<Rightarrow> int \<Rightarrow> py_error + string" where
  "search_transcript world url query context_window =
     (case get_video_title world url of
        Inl e \<Rightarrow> Inl e
      | Inr title \<Rightarrow>
          try_except
            (case TranscriptDict world url of
               Inl e \<Rightarrow> Inl e
             | Inr td \<Rightarrow>
                 if \<not> has_transcript td
                 then Inr (''No transcript available for video: '' @ title)
                 else
                   let results =
                         get_query_usages_with_context td (lower query) (of_int context_window)
                   in if results = []
                      then Inr (''No matches found for '' @ apostrophe @ query @ apostrophe
                                  @ '' in video: '' @ title)
                      else format_results world url title 0 results
                             (''Found '' @ str_int (int (length results)) @ '' matches for ''
                                @ apostrophe @ query @ apostrophe @ '' in video: '' @ title
                                @ nl @ nl))
            (\<lambda>e. Inr (''Error processing transcript: '' @ str_error e)))"

text \<open>
  \<^verbatim>\<open>get_transcript_section\<close>. \<^verbatim>\<open>end_time or 999999\<close> is \<open>999999\<close> for
  \<^verbatim>\<open>None\<close> and for \<open>0\<close>.
\<close>

definition get_transcript_section ::
  "env \<Rightarrow> string \<Rightarrow> int \<Rightarrow> int option \<Rightarrow> py_error + string" where
  "get_transcript_section world url start_time end_time =
     try_except
       (case TranscriptDict world url of
          Inl e \<Rightarrow> Inl e
        | Inr td \<Rightarrow>
            (case fetch_transcript world td (of_int start_time) (map_option of_int end_time) of
               Inl e \<Rightarrow> Inl e
             | Inr section_text \<Rightarrow>
                 if \<not> has_transcript td then Inr section_text
                 else
                   (case generate_link world url (of_int start_time) of
                      Inl e \<Rightarrow> Inl e
                    | Inr formatted_link \<Rightarrow>
                        Inr (''Transcript section from '' @ format_timestamp (of_int start_time)
                          @ '' to ''
                          @ format_timestamp
                              (case end_time of
                                 None \<Rightarrow> 999999
                               | Some e \<Rightarrow> if e = 0 then 999999 else of_int e)
                          @ '':'' @ nl @ nl @ ''Timestamped link: '' @ formatted_link @ nl @ nl
                          @ section_text @ nl @ nl
                          @ ''When displaying this to the user, you must also include the timestamped links to the sections that contain the query so that the user can directly click on them in the client. Also, make sure to format the transcript text to be readable, adding punctuation and paragraphing where necessary, and remove unnecessary filler words.''))))
       (\<lambda>e. case get_video_title world url of
               Inl e' \<Rightarrow> Inl e'
             | Inr title \<Rightarrow>
                 Inr (''Error retrieving transcript section: '' @ str_error e @ nl
                        @ ''Video: '' @ title))"

section \<open>Properties of the search\<close>

lemma py_in_iff: "py_in q s \<longleftrightarrow> (\<exists>ps ss. s = ps @ q @ ss)"
proof (induction s)
  case Nil
  then show ?case by auto
next
  case (Cons c cs)
  show ?case
  proof
    assume "py_in q (c # cs)"
    then consider "prefix q (c # cs)" | "py_in q cs" by auto
    then show "\<exists>ps ss. c # cs = ps @ q @ ss"
    proof cases
      case 1
      then obtain ss where "c # cs = q @ ss" by (auto simp: prefix_def)
      then have "c # cs = [] @ q @ ss" by simp
      then show ?thesis by blast
    next
      case 2
      with Cons.IH obtain ps ss where "cs = ps @ q @ ss" by blast
      then have "c # cs = (c # ps) @ q @ ss" by simp
      then show ?thesis by blast
    qed
  next
    assume "\<exists>ps ss. c # cs = ps @ q @ ss"
    then obtain ps ss where eq: "c # cs = ps @ q @ ss" by blast
    show "py_in q (c # cs)"
    proof (cases ps)
      case Nil
      with eq have "prefix q (c # cs)" by (simp add: prefix_def)
      then show ?thesis by simp
    next
      case (Cons p ps')
      with eq have "cs = ps' @ q @ ss" by simp
      with Cons.IH have "py_in q cs" by blast
      then show ?thesis by simp
    qed
  qed
qed

lemma primary_pass_filter:
  "primary_pass q i xs =
     filter (\<lambda>(j, e). py_in q (lower (text_of e))) (enumerate i xs)"
  by (induction xs arbitrary: i) simp_all

lemma primary_pass_set:
  "set (primary_pass q 0 xs) = {(j, e). j < length xs \<and> e = xs ! j \<and> py_in q (lower (text_of e))}"
  by (auto simp: primary_pass_filter in_set_enumerate_eq)

lemma primary_pass_fst_ge: "(j, e) \<in> set (primary_pass q i xs) \<Longrightarrow> i \<le> j"
  by (induction xs arbitrary: i) (auto split: if_splits dest: Suc_leD)

lemma primary_pass_sorted: "sorted_wrt (<) (map fst (primary_pass q i xs))"
proof (induction xs arbitrary: i)
  case Nil
  then show ?case by simp
next
  case (Cons x xs)
  have "\<forall>p \<in> set (primary_pass q (Suc i) xs). i < fst p"
    using primary_pass_fst_ge [of _ _ q "Suc i" xs] by force
  with Cons.IH [of "Suc i"] show ?case by simp
qed

text \<open>
  Claim C1. If the lowercased query occurs as a substring in the lowercased text of the
  segment at index \<open>i\<close>, the first loop puts the pair \<open>(i, segment i)\<close> into its
  match list, and so does the match list the function goes on with. The loop scans in
  transcript order: the indices of its list are strictly ascending and each pair holds
  the segment at its index.
\<close>

theorem primary_pass_includes_containing_segment:
  assumes "i < length T"
    and "\<exists>ps ss. lower (text_of (T ! i)) = ps @ lower query @ ss"
  shows "(i, T ! i) \<in> set (primary_pass (lower query) 0 T)
    \<and> (i, T ! i) \<in> set (find_matches T query)
    \<and> sorted_wrt (<) (map fst (primary_pass (lower query) 0 T))
    \<and> (\<forall>(j, e) \<in> set (primary_pass (lower query) 0 T).
          j < length T \<and> e = T ! j)"
proof -
  from assms(2) have "py_in (lower query) (lower (text_of (T ! i)))"
    by (simp add: py_in_iff)
  with assms(1) have m: "(i, T ! i) \<in> set (primary_pass (lower query) 0 T)"
    by (simp add: primary_pass_set)
  then have "primary_pass (lower query) 0 T \<noteq> []" by auto
  then have "find_matches T query = primary_pass (lower query) 0 T"
    by (simp add: find_matches_def)
  with m show ?thesis
    by (auto simp: primary_pass_sorted primary_pass_set)
qed

theorem primary_pass_includes_containing_segment_witness:
  "(1::nat) < length [\<lparr>start = 0, text_of = ''hello''\<rparr>, \<lparr>start = 5, text_of = ''World Peace''\<rparr>,
        \<lparr>start = 10, text_of = ''now''\<rparr>]
   \<and> lower (text_of ([\<lparr>start = 0, text_of = ''hello''\<rparr>, \<lparr>start = 5, text_of = ''World Peace''\<rparr>,
        \<lparr>start = 10, text_of = ''now''\<rparr>] ! 1)) = ''world '' @ lower ''PEACE'' @ []
   \<and> (1, \<lparr>start = 5, text_of = ''World Peace''\<rparr>)
       \<in> set (find_matches [\<lparr>start = 0, text_of = ''hello''\<rparr>, \<lparr>start = 5, text_of = ''World Peace''\<rparr>,
        \<lparr>start = 10, text_of = ''now''\<rparr>] ''PEACE'')"
proof -
  let ?T = "[\<lparr>start = 0, text_of = ''hello''\<rparr>, \<lparr>start = 5, text_of = ''World Peace''\<rparr>,
        \<lparr>start = 10, text_of = ''now''\<rparr>]"
  have len: "(1::nat) < length ?T" by simp
  have sub: "lower (text_of (?T ! 1)) = ''world '' @ lower ''PEACE'' @ []" by code_simp
  then have ex: "\<exists>ps ss. lower (text_of (?T ! 1)) = ps @ lower ''PEACE'' @ ss" by blast
  from primary_pass_includes_containing_segment [OF len ex]
  have "(1, ?T ! 1) \<in> set (find_matches ?T ''PEACE'')" by blast
  with len sub show ?thesis by simp
qed


lemma fallback_pass_split:
  assumes "Suc i < length T"
  shows "fallback_pass q T =
     concat (map (window_matches q T) [0 ..< i]) @ window_matches q T i
       @ concat (map (window_matches q T) [Suc i ..< length T - 1])"
proof -
  from assms have "i < length T - 1" by simp
  then have "[0 ..< length T - 1] = [0 ..< i] @ [i] @ [Suc i ..< length T - 1]"
    by (metis append_Cons append_Nil le0 le_add_diff_inverse less_imp_le_nat upt_add_eq_append upt_conv_Cons)
  then show ?thesis by (simp add: fallback_pass_def)
qed

text \<open>
  Claim C2. The second loop runs only when the first found nothing: a non-empty first
  list is the match list, and a query that occurs inside one segment gives a non-empty
  first list. When the first list is empty the match list is that of the second loop,
  and every adjacent pair \<open>(i, i + 1)\<close> whose lowercased texts, joined by one space,
  contain the lowercased query appears in it as two consecutive entries.
\<close>

theorem fallback_only_after_empty_primary:
  "(primary_pass (lower query) 0 T \<noteq> []
      \<longrightarrow> find_matches T query = primary_pass (lower query) 0 T)
   \<and> ((\<exists>i < length T. \<exists>ps ss. lower (text_of (T ! i)) = ps @ lower query @ ss)
      \<longrightarrow> find_matches T query = primary_pass (lower query) 0 T)
   \<and> (primary_pass (lower query) 0 T = []
      \<longrightarrow> find_matches T query = fallback_pass (lower query) T
        \<and> (\<forall>i. Suc i < length T
              \<and> (\<exists>ps ss. lower (text_of (T ! i)) @ '' '' @ lower (text_of (T ! Suc i))
                     = ps @ lower query @ ss)
            \<longrightarrow> (\<exists>pre post. find_matches T query
                     = pre @ [(i, T ! i), (Suc i, T ! Suc i)] @ post)))"
proof (intro conjI impI allI)
  assume "primary_pass (lower query) 0 T \<noteq> []"
  then show "find_matches T query = primary_pass (lower query) 0 T"
    by (simp add: find_matches_def)
next
  assume "\<exists>i < length T. \<exists>ps ss. lower (text_of (T ! i)) = ps @ lower query @ ss"
  then obtain i where "i < length T" "py_in (lower query) (lower (text_of (T ! i)))"
    by (auto simp: py_in_iff)
  then have "(i, T ! i) \<in> set (primary_pass (lower query) 0 T)"
    by (simp add: primary_pass_set)
  then have "primary_pass (lower query) 0 T \<noteq> []" by auto
  then show "find_matches T query = primary_pass (lower query) 0 T"
    by (simp add: find_matches_def)
next
  assume "primary_pass (lower query) 0 T = []"
  then show "find_matches T query = fallback_pass (lower query) T"
    by (simp add: find_matches_def)
next
  fix i
  assume empty: "primary_pass (lower query) 0 T = []"
    and pair: "Suc i < length T
       \<and> (\<exists>ps ss. lower (text_of (T ! i)) @ '' '' @ lower (text_of (T ! Suc i))
              = ps @ lower query @ ss)"
  from pair have "py_in (lower query) (lower (text_of (T ! i)) @ '' '' @ lower (text_of (T ! Suc i)))"
    by (simp only: py_in_iff)
  then have w: "window_matches (lower query) T i = [(i, T ! i), (Suc i, T ! Suc i)]"
    by (simp add: window_matches_def)
  from empty have "find_matches T query = fallback_pass (lower query) T"
    by (simp add: find_matches_def)
  also from pair have "\<dots> = concat (map (window_matches (lower query) T) [0 ..< i])
       @ window_matches (lower query) T i
       @ concat (map (window_matches (lower query) T) [Suc i ..< length T - 1])"
    by (simp only: fallback_pass_split)
  finally show "\<exists>pre post. find_matches T query = pre @ [(i, T ! i), (Suc i, T ! Suc i)] @ post"
    unfolding w by blast
qed

theorem fallback_only_after_empty_primary_witness:
  "primary_pass (lower ''Wor LD'') 0
       [\<lparr>start = 0, text_of = ''hello wor''\<rparr>, \<lparr>start = 5, text_of = ''ld now''\<rparr>] = []
   \<and> Suc 0 < length [\<lparr>start = 0, text_of = ''hello wor''\<rparr>, \<lparr>start = 5, text_of = ''ld now''\<rparr>]
   \<and> find_matches [\<lparr>start = 0, text_of = ''hello wor''\<rparr>, \<lparr>start = 5, text_of = ''ld now''\<rparr>] ''Wor LD''
       = [(0, \<lparr>start = 0, text_of = ''hello wor''\<rparr>), (1, \<lparr>start = 5, text_of = ''ld now''\<rparr>)]
   \<and> primary_pass (lower ''peace'') 0
       [\<lparr>start = 0, text_of = ''hello''\<rparr>, \<lparr>start = 5, text_of = ''world peace''\<rparr>] \<noteq> []
   \<and> find_matches [\<lparr>start = 0, text_of = ''hello''\<rparr>, \<lparr>start = 5, text_of = ''world peace''\<rparr>] ''peace''
       = [(1, \<lparr>start = 5, text_of = ''world peace''\<rparr>)]"
proof -
  let ?T = "[\<lparr>start = 0, text_of = ''hello wor''\<rparr>, \<lparr>start = 5, text_of = ''ld now''\<rparr>]"
  let ?U = "[\<lparr>start = 0, text_of = ''hello''\<rparr>, \<lparr>start = 5, text_of = ''world peace''\<rparr>]"
  have e: "primary_pass (lower ''Wor LD'') 0 ?T = []" by code_simp
  have f: "fallback_pass (lower ''Wor LD'') ?T = [(0, ?T ! 0), (1, ?T ! 1)]" by code_simp
  have n: "primary_pass (lower ''peace'') 0 ?U \<noteq> []" by code_simp
  have p: "primary_pass (lower ''peace'') 0 ?U = [(1, ?U ! 1)]" by code_simp
  from fallback_only_after_empty_primary [of "''Wor LD''" ?T] e
  have 1: "find_matches ?T ''Wor LD'' = fallback_pass (lower ''Wor LD'') ?T" by blast
  from fallback_only_after_empty_primary [of "''peace''" ?U] n
  have 2: "find_matches ?U ''peace'' = primary_pass (lower ''peace'') 0 ?U" by blast
  show ?thesis using e n 1 2 f p by simp
qed


section \<open>Properties of the record-building loop\<close>

lemma records_loop_emitted:
  "records_loop T m cw todo P rs = rs @ map (record_of T m cw) (emitted m todo P)"
proof (induction todo arbitrary: P rs)
  case Nil
  then show ?case by simp
next
  case (Cons p todo)
  obtain i e where p: "p = (i, e)" by (cases p)
  show ?case
  proof (cases "i \<in> P")
    case True
    with Cons.IH p show ?thesis by simp
  next
    case False
    then show ?thesis
      unfolding p by (simp add: Cons.IH Let_def record_of_def)
  qed
qed

lemma adjacent_loop_fst: "fst (adjacent_loop i m) \<longleftrightarrow> Suc i \<in> fst ` set m"
  by (induction i m rule: adjacent_loop.induct) auto

lemma adjacent_loop_snd:
  assumes "\<forall>(j, e) \<in> set m. e = T ! j"
  shows "snd (adjacent_loop i m) = (if Suc i \<in> fst ` set m then Some (T ! Suc i) else None)"
  using assms by (induction i m rule: adjacent_loop.induct) auto

lemma emitted_subset: "set (emitted m todo P) \<subseteq> set todo"
  by (induction m todo P rule: emitted.induct) (auto split: if_splits)

lemma emitted_not_processed: "(i, e) \<in> set (emitted m todo P) \<Longrightarrow> i \<notin> P"
  by (induction m todo P arbitrary: i e rule: emitted.induct) (auto split: if_splits)

lemma emitted_sorted:
  "sorted (map fst todo) \<Longrightarrow> sorted_wrt (<) (map fst (emitted m todo P))"
proof (induction m todo P rule: emitted.induct)
  case (1 m P)
  then show ?case by simp
next
  case (2 m i e todo P)
  let ?P' = "if fst (adjacent_loop i m) then insert (i + 1) (insert i P) else insert i P"
  from "2.prems" have s: "sorted (map fst todo)" and ge: "\<forall>p \<in> set todo. i \<le> fst p" by auto
  show ?case
  proof (cases "i \<in> P")
    case True
    with 2 s show ?thesis by simp
  next
    case False
    have "i < fst p" if "p \<in> set (emitted m todo ?P')" for p
    proof -
      from that emitted_subset have "p \<in> set todo" by blast
      with ge have "i \<le> fst p" by blast
      moreover from that emitted_not_processed [of "fst p" "snd p" m todo ?P'] have "fst p \<noteq> i"
        by (auto split: if_splits)
      ultimately show ?thesis by simp
    qed
    moreover from False "2.IH"(2) s have "sorted_wrt (<) (map fst (emitted m todo ?P'))" by simp
    ultimately show ?thesis using False by simp
  qed
qed

lemma emitted_successor_consumed:
  "sorted (map fst todo) \<Longrightarrow> (i, e) \<in> set (emitted m todo P) \<Longrightarrow> fst (adjacent_loop i m)
     \<Longrightarrow> Suc i \<notin> fst ` set (emitted m todo P)"
proof (induction m todo P rule: emitted.induct)
  case (1 m P)
  then show ?case by simp
next
  case (2 m j e' todo P)
  let ?P' = "if fst (adjacent_loop j m) then insert (j + 1) (insert j P) else insert j P"
  from "2.prems" have s: "sorted (map fst todo)" and ge: "\<forall>p \<in> set todo. j \<le> fst p" by auto
  show ?case
  proof (cases "j \<in> P")
    case True
    with 2 s show ?thesis by simp
  next
    case False
    then have em: "emitted m ((j, e') # todo) P = (j, e') # emitted m todo ?P'" by simp
    show ?thesis
    proof (cases "(i, e) \<in> set (emitted m todo ?P')")
      case True
      with "2.IH"(2) False s "2.prems"(3) have "Suc i \<notin> fst ` set (emitted m todo ?P')" by simp
      moreover from True emitted_subset have "(i, e) \<in> set todo" by blast
      with ge have "j \<le> i" by force
      ultimately show ?thesis unfolding em by auto
    next
      case False
      with "2.prems"(2) em have ij: "i = j" by simp
      with "2.prems"(3) have "Suc i \<in> ?P'" by simp
      with emitted_not_processed [of "Suc i" _ m todo ?P']
      have "Suc i \<notin> fst ` set (emitted m todo ?P')" by force
      with ij show ?thesis unfolding em by auto
    qed
  qed
qed

lemma emitted_complete:
  "j \<in> fst ` set todo \<Longrightarrow>
     j \<in> P \<or> j \<in> fst ` set (emitted m todo P)
     \<or> (\<exists>i \<in> fst ` set (emitted m todo P). j = Suc i \<and> fst (adjacent_loop i m))"
proof (induction m todo P rule: emitted.induct)
  case (1 m P)
  then show ?case by simp
next
  case (2 m i e todo P)
  let ?P' = "if fst (adjacent_loop i m) then insert (i + 1) (insert i P) else insert i P"
  show ?case
  proof (cases "i \<in> P")
    case True
    with 2 show ?thesis by auto
  next
    case False
    then have em: "emitted m ((i, e) # todo) P = (i, e) # emitted m todo ?P'" by simp
    show ?thesis
    proof (cases "j = i")
      case True
      then show ?thesis unfolding em by simp
    next
      case ne: False
      with "2.prems" have "j \<in> fst ` set todo" by auto
      with "2.IH"(2) False have
        "j \<in> ?P' \<or> j \<in> fst ` set (emitted m todo ?P')
          \<or> (\<exists>i \<in> fst ` set (emitted m todo ?P'). j = Suc i \<and> fst (adjacent_loop i m))"
        by simp
      then show ?thesis unfolding em using ne by (auto split: if_splits)
    qed
  qed
qed


lemma window_matches_elems:
  "p \<in> set (window_matches q T i) \<Longrightarrow> (fst p = i \<or> fst p = Suc i) \<and> snd p = T ! fst p"
  by (auto simp: window_matches_def Let_def split: if_splits)

lemma fallback_prefix_sorted:
  "sorted (map fst (concat (map (window_matches q T) [0 ..< n])))
   \<and> (\<forall>p \<in> set (concat (map (window_matches q T) [0 ..< n])). fst p \<le> n)"
proof (induction n)
  case 0
  then show ?case by simp
next
  case (Suc n)
  have w: "\<forall>p \<in> set (window_matches q T n). n \<le> fst p \<and> fst p \<le> Suc n"
    using window_matches_elems [of _ q T n] by force
  have ws: "sorted (map fst (window_matches q T n))"
    by (simp add: window_matches_def Let_def)
  from Suc w ws show ?case
    by (fastforce simp: sorted_append)
qed

lemma fallback_pass_sorted: "sorted (map fst (fallback_pass q T))"
  unfolding fallback_pass_def using fallback_prefix_sorted by blast

lemma fallback_pass_elems:
  assumes "p \<in> set (fallback_pass q T)"
  shows "fst p < length T \<and> snd p = T ! fst p"
proof -
  from assms obtain i where i: "i < length T - 1" and p: "p \<in> set (window_matches q T i)"
    by (auto simp: fallback_pass_def)
  from window_matches_elems [OF p] i show ?thesis by auto
qed

lemma find_matches_elems:
  assumes "p \<in> set (find_matches T query)"
  shows "fst p < length T \<and> snd p = T ! fst p"
proof (cases "primary_pass (lower query) 0 T = []")
  case True
  then have "find_matches T query = fallback_pass (lower query) T"
    by (simp add: find_matches_def)
  with assms have "p \<in> set (fallback_pass (lower query) T)" by simp
  then show ?thesis by (rule fallback_pass_elems)
next
  case False
  then have "find_matches T query = primary_pass (lower query) 0 T"
    by (simp add: find_matches_def)
  with assms have "(fst p, snd p) \<in> set (primary_pass (lower query) 0 T)" by simp
  then show ?thesis by (simp add: primary_pass_set case_prod_beta)
qed

lemma find_matches_sorted: "sorted (map fst (find_matches T query))"
proof (cases "primary_pass (lower query) 0 T = []")
  case True
  then show ?thesis by (simp add: find_matches_def fallback_pass_sorted)
next
  case False
  have "sorted_wrt (<) (map fst (primary_pass (lower query) 0 T))" by (rule primary_pass_sorted)
  then have "sorted (map fst (primary_pass (lower query) 0 T))"
    by (rule strict_sorted_imp_sorted)
  with False show ?thesis by (simp add: find_matches_def)
qed

lemma usages_with_context_emitted:
  assumes "has_transcript self"
  shows "get_query_usages_with_context self query cw =
     map (record_of (transcript_data self) (find_matches (transcript_data self) query) cw)
       (emitted (find_matches (transcript_data self) query)
          (find_matches (transcript_data self) query) {})"
  using assms by (simp add: get_query_usages_with_context_def Let_def records_loop_emitted)

text \<open>
  Claim C7. The records correspond, in order, to a strictly ascending list of match
  indices. The record for index \<open>i\<close> holds segment \<open>i\<close>; it is flagged cross-segment
  exactly when \<open>i + 1\<close> is an index of the match list; its \<open>next_segment\<close> is then
  segment \<open>i + 1\<close> (and \<open>None\<close> otherwise), and \<open>i + 1\<close> gets no record of its own.
  Every index of the match list has a record or is the successor of an index that has.
\<close>

theorem cross_segment_pairing:
  assumes "has_transcript self"
  shows "\<exists>idxs. length idxs = length (get_query_usages_with_context self query cw)
     \<and> sorted_wrt (<) idxs
     \<and> (\<forall>k < length idxs.
          idxs ! k \<in> fst ` set (find_matches (transcript_data self) query)
          \<and> idxs ! k < length (transcript_data self)
          \<and> match (get_query_usages_with_context self query cw ! k)
              = transcript_data self ! (idxs ! k)
          \<and> is_cross_segment (get_query_usages_with_context self query cw ! k)
              = (Suc (idxs ! k) \<in> fst ` set (find_matches (transcript_data self) query))
          \<and> next_segment (get_query_usages_with_context self query cw ! k)
              = (if Suc (idxs ! k) \<in> fst ` set (find_matches (transcript_data self) query)
                 then Some (transcript_data self ! Suc (idxs ! k)) else None)
          \<and> (Suc (idxs ! k) \<in> fst ` set (find_matches (transcript_data self) query)
               \<longrightarrow> Suc (idxs ! k) \<notin> set idxs))
     \<and> (\<forall>j \<in> fst ` set (find_matches (transcript_data self) query).
          j \<in> set idxs \<or> (\<exists>i \<in> set idxs. j = Suc i))"
proof -
  let ?T = "transcript_data self"
  let ?m = "find_matches ?T query"
  let ?em = "emitted ?m ?m {}"
  let ?rs = "get_query_usages_with_context self query cw"
  let ?idxs = "map fst ?em"
  have rs: "?rs = map (record_of ?T ?m cw) ?em"
    using assms by (rule usages_with_context_emitted)
  have wf: "\<forall>(j, e) \<in> set ?m. e = ?T ! j"
    using find_matches_elems [of _ ?T query] by force
  have len: "length ?idxs = length ?rs" by (simp add: rs)
  have srt: "sorted_wrt (<) ?idxs"
    using find_matches_sorted by (rule emitted_sorted)
  have each: "?idxs ! k \<in> fst ` set ?m
          \<and> ?idxs ! k < length ?T
          \<and> match (?rs ! k) = ?T ! (?idxs ! k)
          \<and> is_cross_segment (?rs ! k) = (Suc (?idxs ! k) \<in> fst ` set ?m)
          \<and> next_segment (?rs ! k)
              = (if Suc (?idxs ! k) \<in> fst ` set ?m then Some (?T ! Suc (?idxs ! k)) else None)
          \<and> (Suc (?idxs ! k) \<in> fst ` set ?m \<longrightarrow> Suc (?idxs ! k) \<notin> set ?idxs)"
    if k: "k < length ?idxs" for k
  proof -
    from k have mem: "?em ! k \<in> set ?em" by simp
    with emitted_subset have inm: "?em ! k \<in> set ?m" by blast
    from find_matches_elems [OF inm]
    have lt: "fst (?em ! k) < length ?T" and seg: "snd (?em ! k) = ?T ! fst (?em ! k)" by auto
    from k have ik: "?idxs ! k = fst (?em ! k)" by simp
    from k have rk: "?rs ! k = record_of ?T ?m cw (?em ! k)" by (simp add: rs)
    have cons: "Suc (fst (?em ! k)) \<notin> fst ` set ?em" if "Suc (fst (?em ! k)) \<in> fst ` set ?m"
    proof -
      from that have "fst (adjacent_loop (fst (?em ! k)) ?m)" by (simp add: adjacent_loop_fst)
      with emitted_successor_consumed [where todo = ?m and m = ?m and P = "{}"
            and i = "fst (?em ! k)" and e = "snd (?em ! k)"] find_matches_sorted mem
      show ?thesis by simp
    qed
    from inm have a: "?idxs ! k \<in> fst ` set ?m" unfolding ik by (rule imageI)
    from lt have b: "?idxs ! k < length ?T" unfolding ik .
    from seg have c: "match (?rs ! k) = ?T ! (?idxs ! k)"
      unfolding ik rk by (simp add: record_of_def Let_def)
    have d: "is_cross_segment (?rs ! k) = (Suc (?idxs ! k) \<in> fst ` set ?m)"
      unfolding ik rk by (simp add: record_of_def Let_def adjacent_loop_fst)
    have e: "next_segment (?rs ! k)
              = (if Suc (?idxs ! k) \<in> fst ` set ?m then Some (?T ! Suc (?idxs ! k)) else None)"
      unfolding ik rk
      by (simp add: record_of_def Let_def adjacent_loop_fst adjacent_loop_snd [OF wf])
    from cons have f: "Suc (?idxs ! k) \<in> fst ` set ?m \<longrightarrow> Suc (?idxs ! k) \<notin> set ?idxs"
      unfolding ik by simp
    from a b c d e f show ?thesis by blast
  qed
  have compl: "j \<in> set ?idxs \<or> (\<exists>i \<in> set ?idxs. j = Suc i)" if "j \<in> fst ` set ?m" for j
    using emitted_complete [OF that, of "{}" ?m] by auto
  from len srt each compl show ?thesis by blast
qed


lemma ex_first_two_conjuncts: "\<exists>x. P x \<and> Q x \<and> R x \<Longrightarrow> \<exists>x. P x \<and> Q x"
  by blast

theorem cross_segment_pairing_witness:
  "has_transcript \<lparr>video_id = ''abc'', video_url = ''abc'',
       transcript_data = [\<lparr>start = 0, text_of = ''x''\<rparr>, \<lparr>start = 5, text_of = ''x''\<rparr>,
                          \<lparr>start = 7, text_of = ''x''\<rparr>],
       has_transcript = True\<rparr>
   \<and> (\<exists>idxs :: nat list. length idxs = length (get_query_usages_with_context
          \<lparr>video_id = ''abc'', video_url = ''abc'',
           transcript_data = [\<lparr>start = 0, text_of = ''x''\<rparr>, \<lparr>start = 5, text_of = ''x''\<rparr>,
                              \<lparr>start = 7, text_of = ''x''\<rparr>],
           has_transcript = True\<rparr> ''x x'' 15)
        \<and> sorted_wrt (<) idxs)
   \<and> map is_cross_segment (get_query_usages_with_context
          \<lparr>video_id = ''abc'', video_url = ''abc'',
           transcript_data = [\<lparr>start = 0, text_of = ''x''\<rparr>, \<lparr>start = 5, text_of = ''x''\<rparr>,
                              \<lparr>start = 7, text_of = ''x''\<rparr>],
           has_transcript = True\<rparr> ''x x'' 15) = [True, False]
   \<and> map match (get_query_usages_with_context
          \<lparr>video_id = ''abc'', video_url = ''abc'',
           transcript_data = [\<lparr>start = 0, text_of = ''x''\<rparr>, \<lparr>start = 5, text_of = ''x''\<rparr>,
                              \<lparr>start = 7, text_of = ''x''\<rparr>],
           has_transcript = True\<rparr> ''x x'' 15)
       = [\<lparr>start = 0, text_of = ''x''\<rparr>, \<lparr>start = 7, text_of = ''x''\<rparr>]"
proof -
  let ?td = "\<lparr>video_id = ''abc'', video_url = ''abc'',
       transcript_data = [\<lparr>start = 0, text_of = ''x''\<rparr>, \<lparr>start = 5, text_of = ''x''\<rparr>,
                          \<lparr>start = 7, text_of = ''x''\<rparr>],
       has_transcript = True\<rparr>"
  have h: "has_transcript ?td" by simp
  from cross_segment_pairing [OF h, of "''x x''" 15]
  have ex: "\<exists>idxs :: nat list. length idxs = length (get_query_usages_with_context ?td ''x x'' 15)
        \<and> sorted_wrt (<) idxs" by (rule ex_first_two_conjuncts)
  have flags: "map is_cross_segment (get_query_usages_with_context ?td ''x x'' 15) = [True, False]"
    by code_simp
  have ms: "map match (get_query_usages_with_context ?td ''x x'' 15)
       = [\<lparr>start = 0, text_of = ''x''\<rparr>, \<lparr>start = 7, text_of = ''x''\<rparr>]"
    by code_simp
  from h ex flags ms show ?thesis by (intro conjI)
qed

lemma record_in_results:
  assumes "has_transcript self" and "r \<in> set (get_query_usages_with_context self query cw)"
  shows "\<exists>i. i < length (transcript_data self)
     \<and> r = record_of (transcript_data self) (find_matches (transcript_data self) query) cw
              (i, transcript_data self ! i)"
proof -
  let ?T = "transcript_data self"
  let ?m = "find_matches ?T query"
  from assms obtain p where p: "p \<in> set (emitted ?m ?m {})" and r: "r = record_of ?T ?m cw p"
    by (auto simp: usages_with_context_emitted)
  from p emitted_subset have "p \<in> set ?m" by blast
  from find_matches_elems [OF this] have "fst p < length ?T" "p = (fst p, ?T ! fst p)"
    by (simp_all add: prod_eq_iff)
  with r show ?thesis by metis
qed

section \<open>Exact float subtractions\<close>

lemma powi_less_imp: "(2::rat) powi m < 2 powi n \<Longrightarrow> m < n"
proof (rule ccontr)
  assume a: "(2::rat) powi m < 2 powi n" and "\<not> m < n"
  then have "n \<le> m" by simp
  then have "(2::rat) powi n \<le> 2 powi m" by (intro power_int_increasing) simp_all
  with a show False by simp
qed

lemma powi_nonneg_int: "0 \<le> k \<Longrightarrow> \<exists>m::int. (2::rat) powi k = of_int m"
proof -
  assume "0 \<le> k"
  then have "(2::rat) powi k = of_int (2 ^ nat k)" by (simp add: power_int_nonneg_exp)
  then show ?thesis by blast
qed

lemma bitlen_bounds_rat:
  assumes "0 < p"
  shows "(2::rat) powi (bitlen p - 1) \<le> of_int p" and "of_int p < (2::rat) powi (bitlen p)"
proof -
  from bitlen_bounds [OF assms] have lo: "2 ^ nat (bitlen p - 1) \<le> p" and hi: "p < 2 ^ nat (bitlen p)"
    by simp_all
  from assms have b1: "1 \<le> bitlen p" by (simp add: bitlen_alt_def)
  have "(2::rat) powi (bitlen p - 1) = of_int (2 ^ nat (bitlen p - 1))"
    using b1 by (simp add: power_int_nonneg_exp)
  also from lo have "\<dots> \<le> of_int p" by (simp only: of_int_le_iff)
  finally show "(2::rat) powi (bitlen p - 1) \<le> of_int p" .
  from hi have "(of_int p :: rat) < of_int (2 ^ nat (bitlen p))" by (simp only: of_int_less_iff)
  also have "\<dots> = (2::rat) powi (bitlen p)"
    using b1 by (simp add: power_int_nonneg_exp)
  finally show "of_int p < (2::rat) powi (bitlen p)" .
qed

lemma floor_log2_bounds:
  assumes "0 < x"
  shows "2 powi (floor_log2 x) \<le> x" and "x < 2 powi (floor_log2 x + 1)"
proof -
  obtain p q where pq: "quotient_of x = (p, q)" by (cases "quotient_of x")
  then have q: "0 < q" by (rule quotient_of_denom_pos)
  from pq have x: "x = of_int p / of_int q" by (rule quotient_of_div)
  with assms q have p: "0 < p" by (simp add: zero_less_divide_iff)
  let ?d = "bitlen p - bitlen q"
  note bp = bitlen_bounds_rat [OF p] and bq = bitlen_bounds_rat [OF q]
  have qpos: "(0::rat) < of_int q" using q by simp
  have lo: "(2::rat) powi (?d - 1) < x"
  proof -
    have "(2::rat) powi (?d - 1) = 2 powi (bitlen p - 1) / 2 powi (bitlen q)"
      by (simp add: power_int_diff)
    also have "\<dots> \<le> of_int p / 2 powi (bitlen q)"
      using bp(1) by (simp add: divide_right_mono)
    also have "\<dots> < of_int p / of_int q"
      using bq(2) p qpos by (intro divide_strict_left_mono) simp_all
    finally show ?thesis by (simp add: x)
  qed
  have hi: "x < (2::rat) powi (?d + 1)"
  proof -
    have "x = of_int p / of_int q" by (rule x)
    also have "\<dots> < 2 powi (bitlen p) / of_int q"
      using bp(2) qpos by (simp add: divide_strict_right_mono)
    also have "\<dots> \<le> 2 powi (bitlen p) / 2 powi (bitlen q - 1)"
      using bq(1) q by (intro divide_left_mono) (simp_all add: zero_less_mult_iff)
    also have "\<dots> = (2::rat) powi (bitlen p - (bitlen q - 1))"
      by (subst power_int_diff) simp_all
    also have "bitlen p - (bitlen q - 1) = ?d + 1" by simp
    finally show ?thesis .
  qed
  have fl: "floor_log2 x = (if 2 powi ?d \<le> x then ?d else ?d - 1)"
    by (simp add: floor_log2_def pq Let_def)
  show "2 powi (floor_log2 x) \<le> x"
    using lo by (simp add: fl)
  show "x < 2 powi (floor_log2 x + 1)"
    using hi by (auto simp: fl not_le)
qed


lemma round_half_even_of_int: "round_half_even (of_int k) = k"
  by (simp add: round_half_even_def)

lemma round_half_even_neg: "y < 0 \<Longrightarrow> round_half_even y \<le> 0"
proof -
  assume "y < 0"
  then have "\<lfloor>y\<rfloor> \<le> - 1" by (simp add: floor_le_iff)
  then show ?thesis by (simp add: round_half_even_def Let_def)
qed

lemma quantum_pos: "0 < quantum x"
  by (simp add: quantum_def)

lemma round_double_neg: "x < 0 \<Longrightarrow> round_double x \<le> 0"
proof -
  assume x: "x < 0"
  with quantum_pos [of x] have "x / quantum x < 0" by (simp add: divide_neg_pos)
  then have "round_half_even (x / quantum x) \<le> 0" by (rule round_half_even_neg)
  then have "of_int (round_half_even (x / quantum x)) \<le> (0::rat)" by simp
  with quantum_pos [of x] have "quantum x * of_int (round_half_even (x / quantum x)) \<le> 0"
    by (simp add: mult_le_0_iff)
  with x show ?thesis by (simp add: round_double_def)
qed

text \<open>A positive multiple of a power of two no finer than the quantum is kept.\<close>

lemma round_double_exact:
  assumes "0 < x" and "x = of_int n * 2 powi g"
    and "max (floor_log2 x - 52) (- 1074) \<le> g"
  shows "round_double x = x"
proof -
  define G where "G = max (floor_log2 x - 52) (- 1074)"
  define Q where "Q = quantum x"
  from assms(1) have q: "Q = 2 powi G" by (simp add: Q_def G_def quantum_def)
  from assms(3) have "0 \<le> g - G" by (simp add: G_def)
  then obtain m :: int where m: "(2::rat) powi (g - G) = of_int m"
    using powi_nonneg_int by blast
  have "x / Q = of_int n * (2 powi g / 2 powi G)" by (simp add: q assms(2))
  also have "2 powi g / 2 powi G = (2::rat) powi (g - G)"
    by (subst power_int_diff) simp_all
  finally have xq: "x / Q = of_int (n * m)" by (simp add: m)
  have qpos: "0 < Q" by (simp add: q)
  have "round_double x = Q * of_int (round_half_even (x / Q))"
    using assms(1) by (simp add: round_double_def Q_def)
  also have "round_half_even (x / Q) = n * m"
    unfolding xq by (rule round_half_even_of_int)
  also have "Q * of_int (n * m) = Q * (x / Q)" by (simp only: xq)
  also have "\<dots> = x" using qpos by simp
  finally show ?thesis .
qed

lemma floor_log2_le:
  assumes "0 < x" and "x < 2 powi k"
  shows "floor_log2 x < k"
proof -
  from floor_log2_bounds(1) [OF assms(1)] assms(2) have "(2::rat) powi (floor_log2 x) < 2 powi k"
    by simp
  then show ?thesis by (rule powi_less_imp)
qed

lemma is_double_of_int:
  assumes "0 \<le> c" and "c < 2 ^ 53"
  shows "is_double (of_int c)"
proof (cases "c = 0")
  case True
  then show ?thesis by (simp add: is_double_def round_double_def)
next
  case False
  with assms have pos: "(0::rat) < of_int c" by simp
  from assms(2) have "(of_int c :: rat) < of_int (2 ^ 53)" by (simp only: of_int_less_iff)
  then have "(of_int c :: rat) < 2 powi 53" by simp
  with pos have "floor_log2 (of_int c) < 53" by (rule floor_log2_le)
  then have "max (floor_log2 (of_int c) - 52) (- 1074) \<le> 0" by simp
  moreover have "(of_int c :: rat) = of_int c * 2 powi 0" by simp
  ultimately have "round_double (of_int c) = of_int c"
    using pos by (intro round_double_exact [where n = c and g = 0]) simp_all
  then show ?thesis by (simp add: is_double_def)
qed

text \<open>
  Subtracting a non-negative integer from a double below \<open>2 ^ 53\<close>, without going below
  zero, is exact.
\<close>

lemma is_double_minus_int:
  assumes d: "is_double x" and c: "0 \<le> c" and le: "of_int c \<le> x" and lt: "x < 2 ^ 53"
  shows "is_double (x - of_int c)"
proof (cases "x - of_int c = 0")
  case True
  then show ?thesis by (simp add: is_double_def round_double_def)
next
  case False
  define y where "y = x - of_int c"
  from False le have ypos: "0 < y" by (simp add: y_def)
  from c have cnn: "(0::rat) \<le> of_int c" by simp
  with ypos have xpos: "0 < x" by (simp add: y_def)
  from cnn have yx: "y \<le> x" by (simp add: y_def)
  define gx where "gx = max (floor_log2 x - 52) (- 1074)"
  define gy where "gy = max (floor_log2 y - 52) (- 1074)"
  define n where "n = round_half_even (x / quantum x)"
  have "round_double x = quantum x * of_int n"
    using xpos by (simp add: round_double_def n_def)
  also have "quantum x = 2 powi gx"
    using xpos by (simp add: quantum_def gx_def)
  finally have "round_double x = 2 powi gx * of_int n" .
  with d have xn: "x = of_int n * 2 powi gx" by (simp add: is_double_def mult.commute)
  note yx
  also have "x < 2 powi (floor_log2 x + 1)" by (rule floor_log2_bounds(2) [OF xpos])
  finally have "floor_log2 y < floor_log2 x + 1" using ypos by (intro floor_log2_le)
  then have gyx: "0 \<le> gx - gy" by (simp add: gx_def gy_def)
  from lt have "x < 2 powi 53" by simp
  with yx have "y < 2 powi 53" by simp
  with ypos have "floor_log2 y < 53" by (rule floor_log2_le)
  then have gy0: "0 \<le> - gy" by (simp add: gy_def)
  from gyx obtain m1 :: int where m1: "(2::rat) powi (gx - gy) = of_int m1"
    using powi_nonneg_int by blast
  from gy0 obtain m2 :: int where m2: "(2::rat) powi (- gy) = of_int m2"
    using powi_nonneg_int by blast
  have p1: "(2::rat) powi gx = of_int m1 * 2 powi gy"
  proof -
    have "(2::rat) powi (gx - gy) * 2 powi gy = 2 powi (gx - gy + gy)"
      by (subst power_int_add) simp_all
    then show ?thesis by (simp add: m1)
  qed
  have p2: "(1::rat) = of_int m2 * 2 powi gy"
  proof -
    have "(2::rat) powi (- gy) * 2 powi gy = 2 powi (- gy + gy)"
      by (subst power_int_add) simp_all
    then show ?thesis by (simp add: m2)
  qed
  have "y = of_int n * 2 powi gx - of_int c * 1" by (simp add: y_def xn [symmetric])
  also have "\<dots> = of_int n * (of_int m1 * 2 powi gy) - of_int c * (of_int m2 * 2 powi gy)"
    by (simp only: p1 [symmetric] p2 [symmetric])
  also have "\<dots> = of_int (n * m1 - c * m2) * 2 powi gy" by (simp add: algebra_simps)
  finally have yn: "y = of_int (n * m1 - c * m2) * 2 powi gy" .
  have "round_double y = y"
    using ypos yn by (rule round_double_exact) (simp add: gy_def)
  then show ?thesis by (simp add: is_double_def y_def)
qed

lemma collect_before_exact:
  assumes d: "is_double mt" and mt0: "0 \<le> mt" and mtb: "mt < 2 ^ 53"
    and c0: "0 \<le> c" and cb: "c < 2 ^ 53"
  shows "max 0 (float_sub mt (of_int c)) = max 0 (mt - of_int c)"
    and "float_sub mt (max 0 (float_sub mt (of_int c))) = mt - max 0 (mt - of_int c)"
proof -
  from d have rmt: "round_double mt = mt" by (simp add: is_double_def)
  from is_double_of_int [OF c0 cb] have rc: "round_double (of_int c) = of_int c"
    by (simp add: is_double_def)
  have r0: "round_double 0 = 0" by (simp add: round_double_def)
  have sub: "float_sub mt (of_int c) = round_double (mt - of_int c)"
    by (simp add: float_sub_def rmt rc)
  have both: "max 0 (float_sub mt (of_int c)) = max 0 (mt - of_int c)
      \<and> float_sub mt (max 0 (float_sub mt (of_int c))) = mt - max 0 (mt - of_int c)"
  proof (cases "of_int c \<le> mt")
    case True
    from is_double_minus_int [OF d c0 True mtb]
    have ex: "round_double (mt - of_int c) = mt - of_int c" by (simp add: is_double_def)
    from True have m: "max 0 (mt - of_int c) = mt - of_int c" by simp
    have "float_sub mt (mt - of_int c) = round_double (mt - (mt - of_int c))"
      by (simp only: float_sub_def rmt ex)
    also have "\<dots> = of_int c" by (simp add: rc)
    finally have "float_sub mt (mt - of_int c) = mt - (mt - of_int c)" by simp
    then show ?thesis by (simp only: sub ex m)
  next
    case False
    then have "mt - of_int c < 0" by simp
    then have "round_double (mt - of_int c) \<le> 0" by (rule round_double_neg)
    then have m1: "max 0 (float_sub mt (of_int c)) = 0" by (simp add: sub)
    from False have m2: "max 0 (mt - of_int c) = 0" by simp
    have "float_sub mt 0 = mt" by (simp add: float_sub_def rmt r0)
    then show ?thesis by (simp add: m1 m2)
  qed
  from both show "max 0 (float_sub mt (of_int c)) = max 0 (mt - of_int c)" ..
  from both show "float_sub mt (max 0 (float_sub mt (of_int c))) = mt - max 0 (mt - of_int c)" ..
qed

text \<open>
  Claim C4, as amended. For every record, with \<open>match_time\<close> the start of its match:
  the lower bound of the context before is \<open>max 0 (match_time - context_window)\<close>, the
  entries are the transcript segments with start in \<open>[lower_bound, match_time)\<close>, in
  order, and \<open>available_seconds = match_time - lower_bound\<close>, where \<open>-\<close> is the float
  subtraction of the program. When \<open>context_window\<close> is an integer with
  \<open>0 \<le> context_window < 2^53\<close> and \<open>match_time\<close> is a double with
  \<open>0 \<le> match_time < 2^53\<close>, both subtractions are exact, so \<open>available_seconds\<close> is
  at least \<open>0\<close>, at most \<open>context_window\<close>, and equal to \<open>context_window\<close> once
  \<open>match_time\<close> exceeds \<open>context_window\<close>.
\<close>

theorem context_before_window:
  assumes "has_transcript self" and "r \<in> set (get_query_usages_with_context self query cw)"
  shows "match r \<in> set (transcript_data self)
   \<and> entries (context_before r)
       = filter (\<lambda>entry. max 0 (float_sub (start (match r)) cw) \<le> start entry
                          \<and> start entry < start (match r)) (transcript_data self)
   \<and> available_seconds (context_before r)
       = float_sub (start (match r)) (max 0 (float_sub (start (match r)) cw))
   \<and> (\<forall>c. cw = of_int c \<and> 0 \<le> c \<and> c < 2 ^ 53
          \<and> is_double (start (match r)) \<and> 0 \<le> start (match r) \<and> start (match r) < 2 ^ 53
        \<longrightarrow> max 0 (float_sub (start (match r)) cw) = max 0 (start (match r) - cw)
          \<and> available_seconds (context_before r)
              = start (match r) - max 0 (start (match r) - cw)
          \<and> 0 \<le> available_seconds (context_before r)
          \<and> available_seconds (context_before r) \<le> cw
          \<and> (cw < start (match r) \<longrightarrow> available_seconds (context_before r) = cw))"
proof -
  from record_in_results [OF assms] obtain i where i: "i < length (transcript_data self)"
    and r: "r = record_of (transcript_data self) (find_matches (transcript_data self) query) cw
              (i, transcript_data self ! i)" by blast
  from i have m: "match r \<in> set (transcript_data self)"
    unfolding r by (simp add: record_of_def Let_def)
  have cb: "context_before r = collect_before (transcript_data self) (start (match r)) cw"
    unfolding r by (simp add: record_of_def Let_def)
  have e: "entries (context_before r)
       = filter (\<lambda>entry. max 0 (float_sub (start (match r)) cw) \<le> start entry
                          \<and> start entry < start (match r)) (transcript_data self)"
    unfolding cb by (simp add: collect_before_def Let_def)
  have a: "available_seconds (context_before r)
       = float_sub (start (match r)) (max 0 (float_sub (start (match r)) cw))"
    unfolding cb by (simp add: collect_before_def Let_def)
  have x: "max 0 (float_sub (start (match r)) cw) = max 0 (start (match r) - cw)
          \<and> available_seconds (context_before r)
              = start (match r) - max 0 (start (match r) - cw)
          \<and> 0 \<le> available_seconds (context_before r)
          \<and> available_seconds (context_before r) \<le> cw
          \<and> (cw < start (match r) \<longrightarrow> available_seconds (context_before r) = cw)"
    if h: "cw = of_int c \<and> 0 \<le> c \<and> c < 2 ^ 53
          \<and> is_double (start (match r)) \<and> 0 \<le> start (match r) \<and> start (match r) < 2 ^ 53"
    for c
  proof -
    from h have cw: "cw = of_int c" and c0: "0 \<le> c" and cb: "c < 2 ^ 53"
      and d: "is_double (start (match r))" and mt0: "0 \<le> start (match r)"
      and mtb: "start (match r) < 2 ^ 53" by simp_all
    note ex = collect_before_exact [OF d mt0 mtb c0 cb]
    from ex(1) have lb: "max 0 (float_sub (start (match r)) cw) = max 0 (start (match r) - cw)"
      by (simp only: cw)
    from ex(2) a have av: "available_seconds (context_before r)
        = start (match r) - max 0 (start (match r) - cw)"
      by (simp only: cw)
    from av mt0 c0 have b1: "0 \<le> available_seconds (context_before r)"
      by (simp add: max_def cw)
    from av have b2: "available_seconds (context_before r) \<le> cw" by (simp add: max_def)
    from av have b3: "cw < start (match r) \<longrightarrow> available_seconds (context_before r) = cw"
      by (simp add: max_def)
    from lb av b1 b2 b3 show ?thesis by (intro conjI)
  qed
  from m e a x show ?thesis by blast
qed

theorem context_before_window_witness:
  "has_transcript \<lparr>video_id = ''abc'', video_url = ''abc'',
       transcript_data = [\<lparr>start = 90, text_of = ''before''\<rparr>, \<lparr>start = 100, text_of = ''hello''\<rparr>],
       has_transcript = True\<rparr>
   \<and> get_query_usages_with_context \<lparr>video_id = ''abc'', video_url = ''abc'',
       transcript_data = [\<lparr>start = 90, text_of = ''before''\<rparr>, \<lparr>start = 100, text_of = ''hello''\<rparr>],
       has_transcript = True\<rparr> ''hello'' (of_int 15)
     = [\<lparr>match = \<lparr>start = 100, text_of = ''hello''\<rparr>, is_cross_segment = False,
         next_segment = None,
         context_before = \<lparr>entries = [\<lparr>start = 90, text_of = ''before''\<rparr>], available_seconds = 15\<rparr>,
         context_after = \<lparr>entries = [], available_seconds = 0\<rparr>\<rparr>]
   \<and> (0::int) \<le> 15 \<and> (15::int) < 2 ^ 53
   \<and> is_double 100 \<and> (0::rat) \<le> 100 \<and> (100::rat) < 2 ^ 53 \<and> (of_int 15 :: rat) < 100
   \<and> available_seconds (context_before
        \<lparr>match = \<lparr>start = 100, text_of = ''hello''\<rparr>, is_cross_segment = False,
         next_segment = None,
         context_before = \<lparr>entries = [\<lparr>start = 90, text_of = ''before''\<rparr>], available_seconds = 15\<rparr>,
         context_after = \<lparr>entries = [], available_seconds = 0\<rparr>\<rparr>) = of_int 15"
proof -
  let ?td = "\<lparr>video_id = ''abc'', video_url = ''abc'',
       transcript_data = [\<lparr>start = 90, text_of = ''before''\<rparr>, \<lparr>start = 100, text_of = ''hello''\<rparr>],
       has_transcript = True\<rparr>"
  let ?r = "\<lparr>match = \<lparr>start = 100, text_of = ''hello''\<rparr>, is_cross_segment = False,
         next_segment = None,
         context_before = \<lparr>entries = [\<lparr>start = 90, text_of = ''before''\<rparr>], available_seconds = 15\<rparr>,
         context_after = \<lparr>entries = [], available_seconds = 0\<rparr>\<rparr>"
  have h: "has_transcript ?td" by simp
  have rs: "get_query_usages_with_context ?td ''hello'' (of_int 15) = [?r]" by code_simp
  then have mem: "?r \<in> set (get_query_usages_with_context ?td ''hello'' (of_int 15))" by simp
  have dbl: "is_double 100" by code_simp
  have pre: "(of_int 15 :: rat) = of_int 15 \<and> (0::int) \<le> 15 \<and> (15::int) < 2 ^ 53
          \<and> is_double (start (match ?r)) \<and> 0 \<le> start (match ?r) \<and> start (match ?r) < 2 ^ 53"
    using dbl by simp
  from context_before_window [OF h mem, THEN conjunct2, THEN conjunct2, THEN conjunct2,
      THEN spec, THEN mp, OF pre]
  have "of_int 15 < start (match ?r) \<longrightarrow> available_seconds (context_before ?r) = of_int 15"
    by (elim conjE)
  then have av: "available_seconds (context_before ?r) = of_int 15" by simp
  from h rs dbl av show ?thesis by (intro conjI) simp_all
qed

text \<open>
  Claim C4 as stated fails in two ways. For a negative window \<open>available_seconds\<close> is
  negative: one segment at 5 seconds, window \<open>-5\<close>, gives the lower bound
  \<open>max 0 10 = 10\<close> and \<open>available_seconds = 5 - 10 = -5\<close>. For a large match time the
  float subtraction rounds: one segment at \<open>10^17\<close> seconds, window \<open>15\<close>, gives the
  lower bound \<open>10^17 - 16\<close> (doubles are 16 apart there) and \<open>available_seconds = 16\<close>,
  which is more than the window.
\<close>

theorem context_before_counterexample:
  "map (\<lambda>r. available_seconds (context_before r))
     (get_query_usages_with_context \<lparr>video_id = ''abc'', video_url = ''abc'',
         transcript_data = [\<lparr>start = 5, text_of = ''hello''\<rparr>], has_transcript = True\<rparr>
        ''hello'' (- 5)) = [- 5]
   \<and> \<not> (0::rat) \<le> - 5
   \<and> is_double (10 ^ 17)
   \<and> map (\<lambda>r. available_seconds (context_before r))
     (get_query_usages_with_context \<lparr>video_id = ''abc'', video_url = ''abc'',
         transcript_data = [\<lparr>start = 10 ^ 17, text_of = ''hello''\<rparr>], has_transcript = True\<rparr>
        ''hello'' 15) = [16]
   \<and> \<not> (16::rat) \<le> 15"
  by code_simp

section \<open>The context after a match\<close>

lemma adjacent_loop_consistent: "fst (adjacent_loop i m) \<longleftrightarrow> snd (adjacent_loop i m) \<noteq> None"
  by (induction i m rule: adjacent_loop.induct) auto

lemma context_after_window:
  assumes "has_transcript self" and "r \<in> set (get_query_usages_with_context self query cw)"
  shows "entries (context_after r)
       = filter (\<lambda>entry. start (match r) < start entry
                   \<and> start entry \<le> (case next_segment r of
                                       Some n \<Rightarrow> max (start (match r) + cw) (start n + cw)
                                     | None \<Rightarrow> start (match r) + cw)
                   \<and> (case next_segment r of Some n \<Rightarrow> start entry \<noteq> start n | None \<Rightarrow> True))
           (transcript_data self)
   \<and> available_seconds (context_after r)
       = min (case next_segment r of
                Some n \<Rightarrow> max (start (match r) + cw) (start n + cw)
              | None \<Rightarrow> start (match r) + cw)
             (if transcript_data self \<noteq> [] then start (last (transcript_data self)) else 0)
         - start (match r)"
proof -
  let ?T = "transcript_data self"
  let ?m = "find_matches ?T query"
  from record_in_results [OF assms] obtain i where
    r: "r = record_of ?T ?m cw (i, ?T ! i)" by blast
  show ?thesis
  proof (cases "fst (adjacent_loop i ?m)")
    case True
    with adjacent_loop_consistent obtain n where "snd (adjacent_loop i ?m) = Some n" by blast
    with True show ?thesis
      unfolding r by (simp add: record_of_def collect_after_def Let_def)
  next
    case False
    with adjacent_loop_consistent have "snd (adjacent_loop i ?m) = None" by blast
    with False show ?thesis
      unfolding r by (simp add: record_of_def collect_after_def Let_def)
  qed
qed

text \<open>
  Claim C10. When the transcript is ordered by ascending start time and the window is
  not negative, every record's \<open>available_seconds\<close> for the context after is at least
  \<open>0\<close>: the upper bound and the last start time are both at least \<open>match_time\<close>.
\<close>

theorem context_after_available_nonneg:
  assumes "has_transcript self"
    and "sorted (map start (transcript_data self))"
    and "0 \<le> cw"
    and "r \<in> set (get_query_usages_with_context self query cw)"
  shows "0 \<le> available_seconds (context_after r)"
proof -
  let ?T = "transcript_data self"
  let ?m = "find_matches ?T query"
  from record_in_results [OF assms(1,4)] obtain i where i: "i < length ?T"
    and r: "r = record_of ?T ?m cw (i, ?T ! i)" by blast
  from i have ne: "?T \<noteq> []" by auto
  have mt: "start (match r) = start (?T ! i)" unfolding r by (simp add: record_of_def Let_def)
  from ne have "last ?T = ?T ! (length ?T - 1)" by (rule last_conv_nth)
  moreover from i assms(2) have "map start ?T ! i \<le> map start ?T ! (length ?T - 1)"
    by (intro sorted_nth_mono) auto
  ultimately have last_ge: "start (?T ! i) \<le> start (last ?T)" using i by simp
  have ub: "start (match r) \<le> (case next_segment r of
                Some n \<Rightarrow> max (start (match r) + cw) (start n + cw)
              | None \<Rightarrow> start (match r) + cw)"
    using assms(3) by (simp split: option.splits add: max_def)
  from context_after_window [OF assms(1,4)]
  have "available_seconds (context_after r)
       = min (case next_segment r of
                Some n \<Rightarrow> max (start (match r) + cw) (start n + cw)
              | None \<Rightarrow> start (match r) + cw)
             (start (last ?T)) - start (match r)"
    using ne by simp
  with ub last_ge mt show ?thesis by simp
qed

theorem context_after_available_nonneg_witness:
  "has_transcript \<lparr>video_id = ''abc'', video_url = ''abc'',
       transcript_data = [\<lparr>start = 0, text_of = ''hello''\<rparr>, \<lparr>start = 5, text_of = ''world peace''\<rparr>,
                          \<lparr>start = 10, text_of = ''now''\<rparr>],
       has_transcript = True\<rparr>
   \<and> sorted (map start [\<lparr>start = 0, text_of = ''hello''\<rparr>, \<lparr>start = 5, text_of = ''world peace''\<rparr>,
                          \<lparr>start = 10, text_of = ''now''\<rparr>])
   \<and> (0::rat) \<le> 15
   \<and> get_query_usages_with_context \<lparr>video_id = ''abc'', video_url = ''abc'',
       transcript_data = [\<lparr>start = 0, text_of = ''hello''\<rparr>, \<lparr>start = 5, text_of = ''world peace''\<rparr>,
                          \<lparr>start = 10, text_of = ''now''\<rparr>],
       has_transcript = True\<rparr> ''peace'' 15
     = [\<lparr>match = \<lparr>start = 5, text_of = ''world peace''\<rparr>, is_cross_segment = False,
         next_segment = None,
         context_before = \<lparr>entries = [\<lparr>start = 0, text_of = ''hello''\<rparr>], available_seconds = 5\<rparr>,
         context_after = \<lparr>entries = [\<lparr>start = 10, text_of = ''now''\<rparr>], available_seconds = 5\<rparr>\<rparr>]
   \<and> 0 \<le> available_seconds (context_after
        \<lparr>match = \<lparr>start = 5, text_of = ''world peace''\<rparr>, is_cross_segment = False,
         next_segment = None,
         context_before = \<lparr>entries = [\<lparr>start = 0, text_of = ''hello''\<rparr>], available_seconds = 5\<rparr>,
         context_after = \<lparr>entries = [\<lparr>start = 10, text_of = ''now''\<rparr>], available_seconds = 5\<rparr>\<rparr>)"
proof -
  let ?td = "\<lparr>video_id = ''abc'', video_url = ''abc'',
       transcript_data = [\<lparr>start = 0, text_of = ''hello''\<rparr>, \<lparr>start = 5, text_of = ''world peace''\<rparr>,
                          \<lparr>start = 10, text_of = ''now''\<rparr>],
       has_transcript = True\<rparr>"
  let ?r = "\<lparr>match = \<lparr>start = 5, text_of = ''world peace''\<rparr>, is_cross_segment = False,
         next_segment = None,
         context_before = \<lparr>entries = [\<lparr>start = 0, text_of = ''hello''\<rparr>], available_seconds = 5\<rparr>,
         context_after = \<lparr>entries = [\<lparr>start = 10, text_of = ''now''\<rparr>], available_seconds = 5\<rparr>\<rparr>"
  have h: "has_transcript ?td" by simp
  have s: "sorted (map start (transcript_data ?td))" by simp
  have w: "(0::rat) \<le> 15" by simp
  have rs: "get_query_usages_with_context ?td ''peace'' 15 = [?r]" by code_simp
  then have mem: "?r \<in> set (get_query_usages_with_context ?td ''peace'' 15)" by simp
  from context_after_available_nonneg [OF h s w mem]
  have "0 \<le> available_seconds (context_after ?r)" .
  with h s w rs show ?thesis by simp
qed

text \<open>
  Claim C5 at a transcript in which two segments share a start time. The query
  \<open>foo bar\<close> matches across segments 0 and 1, so \<open>next_segment\<close> is segment 1
  (start 5, \<open>bar\<close>) and the upper bound is \<open>max (0 + 15) (5 + 15) = 20\<close>. Segment 2
  (start 5, \<open>baz\<close>) lies in \<open>(0, 20]\<close> and is not \<open>next_segment\<close>, so the claim puts it
  in the entries. The loop skips every entry whose start equals that of \<open>next_segment\<close>,
  and its entries are empty.
\<close>

theorem context_after_skips_every_segment_at_next_start:
  "get_query_usages_with_context
     \<lparr>video_id = ''abc'', video_url = ''abc'',
      transcript_data = [\<lparr>start = 0, text_of = ''foo''\<rparr>, \<lparr>start = 5, text_of = ''bar''\<rparr>,
                         \<lparr>start = 5, text_of = ''baz''\<rparr>],
      has_transcript = True\<rparr> ''foo bar'' 15
   = [\<lparr>match = \<lparr>start = 0, text_of = ''foo''\<rparr>, is_cross_segment = True,
       next_segment = Some \<lparr>start = 5, text_of = ''bar''\<rparr>,
       context_before = \<lparr>entries = [], available_seconds = 0\<rparr>,
       context_after = \<lparr>entries = [], available_seconds = 5\<rparr>\<rparr>]
   \<and> filter (\<lambda>entry. 0 < start entry \<and> start entry \<le> max (0 + 15) (5 + 15)
               \<and> entry \<noteq> \<lparr>start = 5, text_of = ''bar''\<rparr>)
        [\<lparr>start = 0, text_of = ''foo''\<rparr>, \<lparr>start = 5, text_of = ''bar''\<rparr>,
         \<lparr>start = 5, text_of = ''baz''\<rparr>]
     = [\<lparr>start = 5, text_of = ''baz''\<rparr>]"
  by code_simp


section \<open>Unavailable transcripts, slices and timestamps\<close>

lemma TranscriptDict_fields:
  assumes "TranscriptDict world url = Inr self"
  shows "parse_video_id world url = Inr (video_id self) \<and> video_url self = url
     \<and> (\<not> has_transcript self \<longrightarrow> transcript_data self = [])"
  using assms by (auto simp: TranscriptDict_def split: sum.splits)

lemma get_video_title_total:
  assumes "parse_video_id world url = Inr vid"
  shows "\<exists>title. get_video_title world url = Inr title"
  using assms by (auto simp: get_video_title_def try_except_def Let_def split: sum.splits)

text \<open>
  Claim C3, as amended. For a transcript object the constructor has built and marked
  unavailable, the data is empty, both search operations return an empty collection,
  and \<open>fetch_transcript\<close> returns, without raising, the text
  \<^verbatim>\<open>No transcript available for video: <title> (ID: <video id>)\<close>.
\<close>

theorem unavailable_transcript_results:
  assumes "TranscriptDict world url = Inr self" and "\<not> has_transcript self"
  shows "transcript_data self = []
     \<and> get_query_usages self query = Map.empty
     \<and> get_query_usages_with_context self query cw = []
     \<and> (\<exists>title. get_video_title world url = Inr title
           \<and> fetch_transcript world self start_time end_time
               = Inr (''No transcript available for video: '' @ title @ '' (ID: ''
                        @ video_id self @ '')''))"
proof -
  from TranscriptDict_fields [OF assms(1)] assms(2)
  have p: "parse_video_id world url = Inr (video_id self)" and u: "video_url self = url"
    and d: "transcript_data self = []" by auto
  from get_video_title_total [OF p] obtain title where t: "get_video_title world url = Inr title"
    by blast
  from assms(2) have a: "get_query_usages self query = Map.empty"
    by (simp add: get_query_usages_def)
  from assms(2) have b: "get_query_usages_with_context self query cw = []"
    by (simp add: get_query_usages_with_context_def)
  from assms(2) t u have c: "fetch_transcript world self start_time end_time
               = Inr (''No transcript available for video: '' @ title @ '' (ID: ''
                        @ video_id self @ '')'')"
    by (simp add: fetch_transcript_def)
  from d a b t c show ?thesis by blast
qed

theorem unavailable_transcript_results_witness:
  "TranscriptDict
      \<lparr>urlparse = (\<lambda>u. Inr \<lparr>url_path = u, url_query = ''''\<rparr>),
       parse_qs = (\<lambda>q. Map.empty),
       requests_get = (\<lambda>u. Inl (LibraryError ''connection refused'')),
       list_transcripts = (\<lambda>v. Inl (LibraryError ''transcripts disabled''))\<rparr> ''abc''
     = Inr \<lparr>video_id = ''abc'', video_url = ''abc'', transcript_data = [], has_transcript = False\<rparr>
   \<and> \<not> has_transcript
         \<lparr>video_id = ''abc'', video_url = ''abc'', transcript_data = [], has_transcript = False\<rparr>
   \<and> get_query_usages_with_context
         \<lparr>video_id = ''abc'', video_url = ''abc'', transcript_data = [], has_transcript = False\<rparr>
         ''hello'' 15 = []
   \<and> get_query_usages
         \<lparr>video_id = ''abc'', video_url = ''abc'', transcript_data = [], has_transcript = False\<rparr>
         ''hello'' = Map.empty"
proof -
  let ?w = "\<lparr>urlparse = (\<lambda>u. Inr \<lparr>url_path = u, url_query = ''''\<rparr>),
       parse_qs = (\<lambda>q. Map.empty),
       requests_get = (\<lambda>u. Inl (LibraryError ''connection refused'')),
       list_transcripts = (\<lambda>v. Inl (LibraryError ''transcripts disabled''))\<rparr>"
  let ?td = "\<lparr>video_id = ''abc'', video_url = ''abc'', transcript_data = [],
       has_transcript = False\<rparr>"
  have c: "TranscriptDict ?w ''abc'' = Inr ?td"
    by (simp add: TranscriptDict_def parse_video_id_def fetch_english_def)
  have n: "\<not> has_transcript ?td" by simp
  from unavailable_transcript_results [OF c n, of "''hello''" 15]
  have "get_query_usages ?td ''hello'' = Map.empty"
    and "get_query_usages_with_context ?td ''hello'' 15 = []" by blast+
  with c n show ?thesis by blast
qed

text \<open>
  Claim C3 as stated (\<open>fetch_transcript\<close> returns an empty slice) fails: for an
  unavailable transcript the result is a message, not the empty text.
\<close>

theorem unavailable_fetch_transcript_counterexample:
  "TranscriptDict
      \<lparr>urlparse = (\<lambda>u. Inr \<lparr>url_path = u, url_query = ''''\<rparr>),
       parse_qs = (\<lambda>q. Map.empty),
       requests_get = (\<lambda>u. Inl (LibraryError ''connection refused'')),
       list_transcripts = (\<lambda>v. Inl (LibraryError ''transcripts disabled''))\<rparr> ''abc''
     = Inr \<lparr>video_id = ''abc'', video_url = ''abc'', transcript_data = [], has_transcript = False\<rparr>
   \<and> fetch_transcript
        \<lparr>urlparse = (\<lambda>u. Inr \<lparr>url_path = u, url_query = ''''\<rparr>),
         parse_qs = (\<lambda>q. Map.empty),
         requests_get = (\<lambda>u. Inl (LibraryError ''connection refused'')),
         list_transcripts = (\<lambda>v. Inl (LibraryError ''transcripts disabled''))\<rparr>
        \<lparr>video_id = ''abc'', video_url = ''abc'', transcript_data = [], has_transcript = False\<rparr>
        0 (Some 0)
     = Inr ''No transcript available for video: Video abc (ID: abc)''
   \<and> ''No transcript available for video: Video abc (ID: abc)'' \<noteq> ''''"
  by (simp add: TranscriptDict_def parse_video_id_def fetch_english_def fetch_transcript_def
        get_video_title_def try_except_def)

lemma section_loop_slice:
  "section_loop T s (Some e) acc = Inr (acc @ concat (map format_entry (slice_transcript T s e)))"
  by (induction T arbitrary: acc) (simp_all add: slice_transcript_def)

lemma sorted_filter_lower:
  "sorted (map f xs) \<Longrightarrow> filter (\<lambda>x. a \<le> f x) xs = dropWhile (\<lambda>x. f x < a) xs"
  for f :: "'a \<Rightarrow> rat"
proof (induction xs)
  case Nil
  then show ?case by simp
next
  case (Cons x xs)
  show ?case
  proof (cases "f x < a")
    case True
    with Cons show ?thesis by simp
  next
    case False
    with Cons.prems have "\<forall>y \<in> set xs. a \<le> f y" by auto
    then have "filter (\<lambda>x. a \<le> f x) xs = xs" by simp
    with False show ?thesis by simp
  qed
qed

lemma sorted_filter_upper:
  "sorted (map f xs) \<Longrightarrow> filter (\<lambda>x. f x \<le> b) xs = takeWhile (\<lambda>x. f x \<le> b) xs"
  for f :: "'a \<Rightarrow> rat"
proof (induction xs)
  case Nil
  then show ?case by simp
next
  case (Cons x xs)
  show ?case
  proof (cases "f x \<le> b")
    case True
    with Cons show ?thesis by simp
  next
    case False
    with Cons.prems have "\<forall>y \<in> set xs. \<not> f y \<le> b" by auto
    then have "filter (\<lambda>x. f x \<le> b) xs = []" by simp
    with False show ?thesis by simp
  qed
qed

lemma sorted_dropWhile_map:
  "sorted (map f xs) \<Longrightarrow> sorted (map f (dropWhile P xs))"
  by (induction xs) auto

lemma slice_contiguous:
  assumes "sorted (map start T)"
  shows "\<exists>pre post. T = pre @ slice_transcript T s e @ post"
proof (cases "e = 0")
  case True
  then have "slice_transcript T s e = dropWhile (\<lambda>x. start x < s) T"
    using sorted_filter_lower [OF assms, of s] by (simp add: slice_transcript_def)
  then have "T = takeWhile (\<lambda>x. start x < s) T @ slice_transcript T s e @ []" by simp
  then show ?thesis by blast
next
  case False
  let ?D = "dropWhile (\<lambda>x. start x < s) T"
  have "slice_transcript T s e = filter (\<lambda>x. start x \<le> e) (filter (\<lambda>x. s \<le> start x) T)"
    using False by (simp add: slice_transcript_def conj_commute)
  also have "\<dots> = filter (\<lambda>x. start x \<le> e) ?D"
    using sorted_filter_lower [OF assms, of s] by simp
  also have "\<dots> = takeWhile (\<lambda>x. start x \<le> e) ?D"
    using sorted_dropWhile_map [OF assms] by (rule sorted_filter_upper)
  finally have sl: "slice_transcript T s e = takeWhile (\<lambda>x. start x \<le> e) ?D" .
  have "T = takeWhile (\<lambda>x. start x < s) T @ ?D" by simp
  also have "?D = takeWhile (\<lambda>x. start x \<le> e) ?D @ dropWhile (\<lambda>x. start x \<le> e) ?D" by simp
  finally have "T = takeWhile (\<lambda>x. start x < s) T @ slice_transcript T s e
      @ dropWhile (\<lambda>x. start x \<le> e) ?D"
    unfolding sl .
  then show ?thesis by blast
qed

text \<open>
  Claim C6. For an available transcript and a numeric \<open>end_time\<close>, \<open>fetch_transcript\<close>
  returns the lines of exactly the segments of \<open>slice_transcript\<close>, in transcript
  order: those with \<open>start \<ge> start_time\<close> and (\<open>end_time = 0\<close> or
  \<open>start \<le> end_time\<close>). With \<open>end_time = 0\<close> these are all segments with
  \<open>start \<ge> start_time\<close>. With \<open>end_time > 0\<close> and a transcript ordered by start
  time the slice is a contiguous block of the transcript; it is empty when
  \<open>start_time > end_time\<close> and when \<open>start_time\<close> exceeds every start. The function
  takes the transcript as an argument and returns only the text, so nothing is mutated.
\<close>

theorem fetch_transcript_slice:
  assumes "has_transcript self"
  shows "fetch_transcript world self s (Some e)
       = Inr (concat (map format_entry (slice_transcript (transcript_data self) s e)))
   \<and> slice_transcript (transcript_data self) s e
       = filter (\<lambda>entry. s \<le> start entry \<and> (e = 0 \<or> start entry \<le> e)) (transcript_data self)
   \<and> slice_transcript (transcript_data self) s 0
       = filter (\<lambda>entry. s \<le> start entry) (transcript_data self)
   \<and> (0 < e \<and> sorted (map start (transcript_data self))
        \<longrightarrow> (\<exists>pre post. transcript_data self
               = pre @ slice_transcript (transcript_data self) s e @ post))
   \<and> (0 < e \<and> e < s \<longrightarrow> slice_transcript (transcript_data self) s e = [])
   \<and> ((\<forall>entry \<in> set (transcript_data self). start entry < s)
        \<longrightarrow> slice_transcript (transcript_data self) s e = [])"
proof (intro conjI impI)
  from assms show "fetch_transcript world self s (Some e)
       = Inr (concat (map format_entry (slice_transcript (transcript_data self) s e)))"
    by (simp add: fetch_transcript_def section_loop_slice)
next
  show "slice_transcript (transcript_data self) s e
       = filter (\<lambda>entry. s \<le> start entry \<and> (e = 0 \<or> start entry \<le> e)) (transcript_data self)"
    by (simp add: slice_transcript_def)
next
  show "slice_transcript (transcript_data self) s 0
       = filter (\<lambda>entry. s \<le> start entry) (transcript_data self)"
    by (simp add: slice_transcript_def)
next
  assume "0 < e \<and> sorted (map start (transcript_data self))"
  then show "\<exists>pre post. transcript_data self
               = pre @ slice_transcript (transcript_data self) s e @ post"
    using slice_contiguous by blast
next
  assume "0 < e \<and> e < s"
  then show "slice_transcript (transcript_data self) s e = []"
    by (auto simp: slice_transcript_def filter_empty_conv)
next
  assume "\<forall>entry \<in> set (transcript_data self). start entry < s"
  then show "slice_transcript (transcript_data self) s e = []"
    by (auto simp: slice_transcript_def filter_empty_conv)
qed

theorem fetch_transcript_slice_witness:
  "has_transcript \<lparr>video_id = ''abc'', video_url = ''abc'',
       transcript_data = [\<lparr>start = 0, text_of = ''a''\<rparr>, \<lparr>start = 5, text_of = ''b''\<rparr>,
                          \<lparr>start = 10, text_of = ''c''\<rparr>],
       has_transcript = True\<rparr>
   \<and> fetch_transcript
       \<lparr>urlparse = (\<lambda>u. Inr \<lparr>url_path = u, url_query = ''''\<rparr>),
        parse_qs = (\<lambda>q. Map.empty),
        requests_get = (\<lambda>u. Inl (LibraryError ''connection refused'')),
        list_transcripts = (\<lambda>v. Inl (LibraryError ''transcripts disabled''))\<rparr>
       \<lparr>video_id = ''abc'', video_url = ''abc'',
       transcript_data = [\<lparr>start = 0, text_of = ''a''\<rparr>, \<lparr>start = 5, text_of = ''b''\<rparr>,
                          \<lparr>start = 10, text_of = ''c''\<rparr>],
       has_transcript = True\<rparr> 5 (Some 0)
     = Inr (''[00:05] b'' @ nl @ nl @ ''[00:10] c'' @ nl @ nl)
   \<and> slice_transcript [\<lparr>start = 0, text_of = ''a''\<rparr>, \<lparr>start = 5, text_of = ''b''\<rparr>,
                          \<lparr>start = 10, text_of = ''c''\<rparr>] 5 0
     = [\<lparr>start = 5, text_of = ''b''\<rparr>, \<lparr>start = 10, text_of = ''c''\<rparr>]
   \<and> (0::rat) < 7
   \<and> sorted (map start [\<lparr>start = 0, text_of = ''a''\<rparr>, \<lparr>start = 5, text_of = ''b''\<rparr>,
                          \<lparr>start = 10, text_of = ''c''\<rparr>])
   \<and> slice_transcript [\<lparr>start = 0, text_of = ''a''\<rparr>, \<lparr>start = 5, text_of = ''b''\<rparr>,
                          \<lparr>start = 10, text_of = ''c''\<rparr>] 3 7
     = [\<lparr>start = 5, text_of = ''b''\<rparr>]
   \<and> (\<exists>pre post. [\<lparr>start = 0, text_of = ''a''\<rparr>, \<lparr>start = 5, text_of = ''b''\<rparr>,
                          \<lparr>start = 10, text_of = ''c''\<rparr>]
         = pre @ slice_transcript [\<lparr>start = 0, text_of = ''a''\<rparr>, \<lparr>start = 5, text_of = ''b''\<rparr>,
                          \<lparr>start = 10, text_of = ''c''\<rparr>] 3 7 @ post)
   \<and> (0::rat) < 2 \<and> (2::rat) < 4
   \<and> slice_transcript [\<lparr>start = 0, text_of = ''a''\<rparr>, \<lparr>start = 5, text_of = ''b''\<rparr>,
                          \<lparr>start = 10, text_of = ''c''\<rparr>] 4 2 = []"
proof -
  let ?w = "\<lparr>urlparse = (\<lambda>u. Inr \<lparr>url_path = u, url_query = ''''\<rparr>),
        parse_qs = (\<lambda>q. Map.empty),
        requests_get = (\<lambda>u. Inl (LibraryError ''connection refused'')),
        list_transcripts = (\<lambda>v. Inl (LibraryError ''transcripts disabled''))\<rparr>"
  let ?T = "[\<lparr>start = 0, text_of = ''a''\<rparr>, \<lparr>start = 5, text_of = ''b''\<rparr>,
                          \<lparr>start = 10, text_of = ''c''\<rparr>]"
  let ?td = "\<lparr>video_id = ''abc'', video_url = ''abc'', transcript_data = ?T,
       has_transcript = True\<rparr>"
  have h: "has_transcript ?td" by simp
  have sl: "slice_transcript ?T 5 0
     = [\<lparr>start = 5, text_of = ''b''\<rparr>, \<lparr>start = 10, text_of = ''c''\<rparr>]"
    by (simp add: slice_transcript_def)
  have sl2: "slice_transcript ?T 3 7 = [\<lparr>start = 5, text_of = ''b''\<rparr>]"
    by (simp add: slice_transcript_def)
  have srt: "sorted (map start ?T)" by simp
  have fm: "concat (map format_entry [\<lparr>start = 5, text_of = ''b''\<rparr>, \<lparr>start = 10, text_of = ''c''\<rparr>])
     = ''[00:05] b'' @ nl @ nl @ ''[00:10] c'' @ nl @ nl"
    by code_simp
  from fetch_transcript_slice [OF h, of ?w 5 0, THEN conjunct1]
  have "fetch_transcript ?w ?td 5 (Some 0)
     = Inr (concat (map format_entry (slice_transcript ?T 5 0)))" by simp
  with sl fm have ft: "fetch_transcript ?w ?td 5 (Some 0)
     = Inr (''[00:05] b'' @ nl @ nl @ ''[00:10] c'' @ nl @ nl)" by simp
  have pre4: "0 < (7::rat) \<and> sorted (map start (transcript_data ?td))" by simp
  from fetch_transcript_slice [OF h, of ?w 3 7, THEN conjunct2, THEN conjunct2,
      THEN conjunct2, THEN conjunct1, THEN mp, OF pre4]
  have ex: "\<exists>pre post. ?T = pre @ slice_transcript ?T 3 7 @ post" by simp
  have pre5: "0 < (2::rat) \<and> (2::rat) < 4" by simp
  from fetch_transcript_slice [OF h, of ?w 4 2, THEN conjunct2, THEN conjunct2,
      THEN conjunct2, THEN conjunct2, THEN conjunct1, THEN mp, OF pre5]
  have em: "slice_transcript ?T 4 2 = []" by simp
  from h ft sl srt sl2 ex em show ?thesis by (intro conjI) simp_all
qed

lemma py_int_of_int: "py_int (of_int z) = z"
  by (simp add: py_int_def)

lemma py_floordiv_of_int: "py_floordiv (of_int n) (of_int d) = of_int (n div d)"
  by (simp add: py_floordiv_def floor_divide_of_int_eq)

lemma py_mod_of_int: "py_mod (of_int n) (of_int d) = of_int (n mod d)"
proof -
  have "py_mod (of_int n) (of_int d) = of_int n - of_int d * of_int (n div d)"
    by (simp add: py_mod_def floor_divide_of_int_eq)
  also have "\<dots> = of_int (n - d * (n div d))" by simp
  also have "n - d * (n div d) = n mod d" by (simp add: minus_mult_div_eq_mod)
  finally show ?thesis .
qed

lemma format_timestamp_of_int:
  "format_timestamp (of_int n) =
     (if n div 3600 > 0
      then fmt_02d (n div 3600) @ '':'' @ fmt_02d (n mod 3600 div 60) @ '':'' @ fmt_02d (n mod 60)
      else fmt_02d (n mod 3600 div 60) @ '':'' @ fmt_02d (n mod 60))"
proof -
  have a: "py_floordiv (of_int n) 3600 = of_int (n div 3600)"
    using py_floordiv_of_int [of n 3600] by simp
  have b: "py_mod (of_int n) 3600 = of_int (n mod 3600)"
    using py_mod_of_int [of n 3600] by simp
  have c: "py_floordiv (of_int (n mod 3600)) 60 = of_int (n mod 3600 div 60)"
    using py_floordiv_of_int [of "n mod 3600" 60] by simp
  have d: "py_mod (of_int n) 60 = of_int (n mod 60)"
    using py_mod_of_int [of n 60] by simp
  show ?thesis
    unfolding format_timestamp_def a b c d py_int_of_int Let_def by simp
qed

lemma digit_char_0: "digit_char 0 = CHR ''0''"
  by code_simp

lemma digits_small: "n < 10 \<Longrightarrow> digits n = [digit_char n]"
  by (simp add: digits.simps)

lemma digits_two: "10 \<le> n \<Longrightarrow> n < 100 \<Longrightarrow> digits n = [digit_char (n div 10), digit_char (n mod 10)]"
  by (subst digits.simps) (simp add: digits_small)

lemma digits_length_ge: "100 \<le> n \<Longrightarrow> 3 \<le> length (digits n)"
proof -
  assume n: "100 \<le> n"
  have "digits n = digits (n div 10) @ [digit_char (n mod 10)]"
    using n by (subst digits.simps) simp
  moreover have "digits (n div 10) = digits (n div 10 div 10) @ [digit_char (n div 10 mod 10)]"
    using n by (subst digits.simps) simp
  moreover have "1 \<le> length (digits (n div 10 div 10))"
    by (subst digits.simps) simp
  ultimately show ?thesis by simp
qed

lemma fmt_02d_two_digits:
  assumes "0 \<le> k" and "k < 100"
  shows "fmt_02d k = [digit_char (nat (k div 10)), digit_char (nat (k mod 10))]"
proof (cases "k < 10")
  case True
  with assms have "digits (nat k) = [digit_char (nat k)]" by (simp add: digits_small)
  moreover from True assms have "k div 10 = 0" "k mod 10 = k" by simp_all
  ultimately show ?thesis using assms by (simp add: fmt_02d_def digit_char_0)
next
  case False
  with assms have "digits (nat k) = [digit_char (nat k div 10), digit_char (nat k mod 10)]"
    by (simp add: digits_two)
  moreover from assms have "nat k div 10 = nat (k div 10)" "nat k mod 10 = nat (k mod 10)"
    by (simp_all add: nat_div_distrib nat_mod_distrib)
  ultimately show ?thesis using assms by (simp add: fmt_02d_def)
qed

lemma fmt_02d_wide:
  assumes "100 \<le> k"
  shows "fmt_02d k = digits (nat k) \<and> 3 \<le> length (digits (nat k))"
proof -
  from assms have "3 \<le> length (digits (nat k))" by (intro digits_length_ge) simp
  with assms show ?thesis by (simp add: fmt_02d_def)
qed

text \<open>
  Claim C9. For an integer number of seconds \<open>n\<close>: under one hour the result is
  \<open>MM:SS\<close>, otherwise \<open>HH:MM:SS\<close>. Minutes and seconds are always two decimal
  digits. The hours field is \<^verbatim>\<open>02d\<close>: two digits, zero-padded, up to 99 hours,
  and the plain decimal number (three digits or more) from 100 hours on.
\<close>

theorem format_timestamp_layout:
  "(n < 3600 \<longrightarrow>
      format_timestamp (of_int n)
        = [digit_char (nat (n mod 3600 div 60 div 10)), digit_char (nat (n mod 3600 div 60 mod 10)),
           CHR '':'',
           digit_char (nat (n mod 60 div 10)), digit_char (nat (n mod 60 mod 10))])
   \<and> (3600 \<le> n \<longrightarrow>
      format_timestamp (of_int n)
        = fmt_02d (n div 3600)
          @ [CHR '':'',
             digit_char (nat (n mod 3600 div 60 div 10)), digit_char (nat (n mod 3600 div 60 mod 10)),
             CHR '':'',
             digit_char (nat (n mod 60 div 10)), digit_char (nat (n mod 60 mod 10))])
   \<and> (3600 \<le> n \<and> n < 360000 \<longrightarrow>
      fmt_02d (n div 3600)
        = [digit_char (nat (n div 3600 div 10)), digit_char (nat (n div 3600 mod 10))])
   \<and> (360000 \<le> n \<longrightarrow>
      fmt_02d (n div 3600) = digits (nat (n div 3600)) \<and> 3 \<le> length (digits (nat (n div 3600))))"
proof -
  have mm: "fmt_02d (n mod 3600 div 60)
      = [digit_char (nat (n mod 3600 div 60 div 10)), digit_char (nat (n mod 3600 div 60 mod 10))]"
  proof (rule fmt_02d_two_digits)
    show "0 \<le> n mod 3600 div 60" by simp
    have "n mod 3600 < 3600" by simp
    then have "n mod 3600 div 60 \<le> 3599 div 60" by (intro zdiv_mono1) simp_all
    then show "n mod 3600 div 60 < 100" by simp
  qed
  have ss: "fmt_02d (n mod 60)
      = [digit_char (nat (n mod 60 div 10)), digit_char (nat (n mod 60 mod 10))]"
    by (rule fmt_02d_two_digits) simp_all
  have lt: "0 < n div 3600 \<longleftrightarrow> 3600 \<le> n"
    using pos_imp_zdiv_pos_iff [of 3600 n] by simp
  have hh: "fmt_02d (n div 3600)
        = [digit_char (nat (n div 3600 div 10)), digit_char (nat (n div 3600 mod 10))]"
    if "3600 \<le> n \<and> n < 360000"
  proof (rule fmt_02d_two_digits)
    from that show "0 \<le> n div 3600" by (simp add: pos_imp_zdiv_nonneg_iff)
    from that have "n div 3600 \<le> 359999 div 3600" by (intro zdiv_mono1) simp_all
    then show "n div 3600 < 100" by simp
  qed
  have wide: "fmt_02d (n div 3600) = digits (nat (n div 3600))
      \<and> 3 \<le> length (digits (nat (n div 3600)))" if "360000 \<le> n"
  proof (rule fmt_02d_wide)
    from that have "360000 div 3600 \<le> n div 3600" by (intro zdiv_mono1) simp_all
    then show "100 \<le> n div 3600" by simp
  qed
  show ?thesis
    using hh wide by (simp add: format_timestamp_of_int mm ss lt)
qed

theorem format_timestamp_layout_witness:
  "(125::int) < 3600 \<and> format_timestamp (of_int 125) = ''02:05''
   \<and> (3600::int) \<le> 3725 \<and> (3725::int) < 360000 \<and> format_timestamp (of_int 3725) = ''01:02:05''
   \<and> (360000::int) \<le> 999999 \<and> format_timestamp (of_int 999999) = ''277:46:39''"
proof -
  have d: "digit_char 0 = CHR ''0''" "digit_char 1 = CHR ''1''" "digit_char 2 = CHR ''2''"
    "digit_char 3 = CHR ''3''" "digit_char 4 = CHR ''4''" "digit_char 5 = CHR ''5''"
    "digit_char 6 = CHR ''6''" "digit_char 7 = CHR ''7''" "digit_char 9 = CHR ''9''"
    "digit_char (Suc 0) = CHR ''1''"
    by code_simp+
  have w: "digits 277 = ''277''" by code_simp
  from format_timestamp_layout [of 125]
  have a: "format_timestamp (of_int 125) = ''02:05''" by (simp add: d)
  from format_timestamp_layout [of 3725]
  have b: "format_timestamp (of_int 3725) = ''01:02:05''" by (simp add: d)
  from format_timestamp_layout [of 999999]
  have c: "format_timestamp (of_int 999999) = ''277:46:39''" by (simp add: d w)
  from a b c show ?thesis by simp
qed


section \<open>Resolution errors at the tools\<close>

lemma parse_video_id_missing_v:
  assumes "urlparse world url = Inr parsed"
    and "\<not> py_in ''live'' (url_path parsed)"
    and "url_query parsed \<noteq> []"
    and "parse_qs world (url_query parsed) ''v'' = None"
  shows "parse_video_id world url = Inl (KeyError ''v'')"
  using assms by (simp add: parse_video_id_def)

lemma get_video_title_propagates:
  "parse_video_id world url = Inl e \<Longrightarrow> get_video_title world url = Inl e"
  by (simp add: get_video_title_def)

lemma resolution_error_propagates:
  assumes "parse_video_id world url = Inl e"
  shows "get_full_transcript world url = Inl e"
    and "get_video_information world url = Inl e"
    and "search_transcript world url query context_window = Inl e"
    and "get_transcript_section world url start_time end_time = Inl e"
proof -
  note t = get_video_title_propagates [OF assms]
  show "get_full_transcript world url = Inl e"
    by (simp add: get_full_transcript_def try_except_def assms t)
  show "get_video_information world url = Inl e"
    by (simp add: get_video_information_def assms)
  show "search_transcript world url query context_window = Inl e"
    by (simp add: search_transcript_def t)
  show "get_transcript_section world url start_time end_time = Inl e"
    by (simp add: get_transcript_section_def TranscriptDict_def try_except_def assms t)
qed

text \<open>
  Claim C8 at a watch URL whose query string has no \<open>v\<close> parameter. \<^verbatim>\<open>urlparse\<close>
  gives the path \<open>/watch\<close> and the query \<open>list=PL1\<close>, \<^verbatim>\<open>parse_qs\<close> gives a
  dictionary without the key \<open>v\<close>, and \<open>parse_video_id\<close> raises \<open>KeyError\<close>. All
  other services answer normally. Each of the four tools lets the exception out:
  \<open>get_video_information\<close> and \<open>search_transcript\<close> resolve the URL before their
  \<^verbatim>\<open>try\<close> block, and the \<^verbatim>\<open>except\<close> handlers of \<open>get_full_transcript\<close> and
  \<open>get_transcript_section\<close> resolve it again through \<open>get_video_title\<close>.
\<close>

theorem resolution_error_escapes_every_tool:
  "(let world =
         \<lparr>urlparse = (\<lambda>u. if u = ''https://www.youtube.com/watch?list=PL1''
                            then Inr \<lparr>url_path = ''/watch'', url_query = ''list=PL1''\<rparr>
                            else Inr \<lparr>url_path = u, url_query = []\<rparr>),
          parse_qs = (\<lambda>q. if q = ''list=PL1'' then [''list'' \<mapsto> [''PL1'']] else Map.empty),
          requests_get = (\<lambda>u. Inr \<lparr>status_code = 200, json_title = Inr ''A title''\<rparr>),
          list_transcripts = (\<lambda>v. Inr \<lparr>transcripts = [Transcript ''English'' (Inr [])],
                                          find_transcript = (\<lambda>codes. Inr (Transcript ''English'' (Inr [])))\<rparr>)\<rparr>;
       url = ''https://www.youtube.com/watch?list=PL1''
   in parse_video_id world url = Inl (KeyError ''v'')
      \<and> get_full_transcript world url = Inl (KeyError ''v'')
      \<and> get_video_information world url = Inl (KeyError ''v'')
      \<and> search_transcript world url ''hello'' 15 = Inl (KeyError ''v'')
      \<and> get_transcript_section world url 0 (Some 0) = Inl (KeyError ''v''))"
proof -
  let ?w = "\<lparr>urlparse = (\<lambda>u. if u = ''https://www.youtube.com/watch?list=PL1''
                            then Inr \<lparr>url_path = ''/watch'', url_query = ''list=PL1''\<rparr>
                            else Inr \<lparr>url_path = u, url_query = []\<rparr>),
          parse_qs = (\<lambda>q. if q = ''list=PL1'' then [''list'' \<mapsto> [''PL1'']] else Map.empty),
          requests_get = (\<lambda>u. Inr \<lparr>status_code = 200, json_title = Inr ''A title''\<rparr>),
          list_transcripts = (\<lambda>v. Inr \<lparr>transcripts = [Transcript ''English'' (Inr [])],
                                          find_transcript = (\<lambda>codes. Inr (Transcript ''English'' (Inr [])))\<rparr>)\<rparr>"
  let ?u = "''https://www.youtube.com/watch?list=PL1''"
  have p: "parse_video_id ?w ?u = Inl (KeyError ''v'')"
    by (rule parse_video_id_missing_v [where parsed = "\<lparr>url_path = ''/watch'', url_query = ''list=PL1''\<rparr>"])
      simp_all
  from p resolution_error_propagates [OF p] show ?thesis
    unfolding Let_def by (intro conjI)
qed


end
